theory Spec2Isabelle
  imports Main "HOL-Library.Sublist"
begin

section \<open>Text\<close>

text \<open>
  A Python \<^verbatim>\<open>str\<close> is a sequence of Unicode code points, and every window of the script
  (1000, 2000 and 50) counts code points. A buffer is therefore a list of code points;
  \<open>ustr\<close> turns an ASCII literal into one.
\<close>

type_synonym ustring = "nat list"

definition ustr :: "string \<Rightarrow> ustring" where
  "ustr s = map of_char s"

text \<open>The double quote and the line feed, which a literal cannot hold.\<close>

definition DQUOTE :: ustring where
  "DQUOTE = [34]"

definition NL :: ustring where
  "NL = [10]"

text \<open>\<^verbatim>\<open>s[a:b]\<close> for \<open>0 \<le> a\<close>: Python clamps both ends to the length of \<open>s\<close>.\<close>

definition slice :: "'a list \<Rightarrow> nat \<Rightarrow> nat \<Rightarrow> 'a list" where
  "slice s a b = take (b - a) (drop a s)"

text \<open>\<^verbatim>\<open>sub in s\<close> on strings: \<open>sub\<close> occurs in \<open>s\<close> as a contiguous block.\<close>

primrec str_in :: "ustring \<Rightarrow> ustring \<Rightarrow> bool" where
  "str_in sub [] = (sub = [])"
| "str_in sub (x # xs) = (prefix sub (x # xs) \<or> str_in sub xs)"

text \<open>\<^verbatim>\<open>str(n)\<close> for a count \<open>n \<ge> 0\<close>: its decimal digits.\<close>

function str_of_nat :: "nat \<Rightarrow> ustring" where
  "str_of_nat n = (if n < 10 then [48 + n] else str_of_nat (n div 10) @ [48 + n mod 10])"
  by pat_completeness auto
termination
  by (relation "measure id") auto

declare str_of_nat.simps [simp del]

section \<open>The fragment of the \<^verbatim>\<open>re\<close> module the script uses\<close>

text \<open>
  \<^verbatim>\<open>\s\<close> in a \<^verbatim>\<open>str\<close> pattern matches the Unicode whitespace characters: the code points
  for which \<^verbatim>\<open>str.isspace\<close> holds.
\<close>

definition is_space :: "nat \<Rightarrow> bool" where
  "is_space c \<longleftrightarrow>
     (9 \<le> c \<and> c \<le> 13) \<or> (28 \<le> c \<and> c \<le> 32) \<or> c = 133 \<or> c = 160 \<or> c = 5760 \<or>
     (8192 \<le> c \<and> c \<le> 8202) \<or> c = 8232 \<or> c = 8233 \<or> c = 8239 \<or> c = 8287 \<or> c = 12288"

text \<open>
  The three patterns of the script are sequences of two kinds of items: a literal character,
  and a greedy star over a character class (\<^verbatim>\<open>\s*\<close>, \<^verbatim>\<open>[^\]]*\<close>). The capture group of the
  second pattern is never read, so it is not modelled.
\<close>

datatype atom = Chr nat | Star "nat \<Rightarrow> bool"

text \<open>
  \<open>re_match pat s\<close> is the backtracking matcher anchored at the head of \<open>s\<close>: the number of
  characters the first successful path consumes. A star first tries to take one more
  character and falls back to the rest of the pattern when that path fails.
\<close>

fun re_match :: "atom list \<Rightarrow> ustring \<Rightarrow> nat option" where
  "re_match [] s = Some 0"
| "re_match (Chr c # r) [] = None"
| "re_match (Chr c # r) (x # xs) =
     (if x = c then map_option Suc (re_match r xs) else None)"
| "re_match (Star P # r) [] = re_match r []"
| "re_match (Star P # r) (x # xs) =
     (if P x then
        (case re_match (Star P # r) xs of
           Some n \<Rightarrow> Some (Suc n)
         | None \<Rightarrow> re_match r (x # xs))
      else re_match r (x # xs))"

text \<open>
  \<^verbatim>\<open>re.search\<close> tries every start position from the left, the end of the string included;
  the result is \<open>(m.start(), m.end())\<close> of the match object, or \<open>None\<close>.
\<close>

fun re_search_from :: "atom list \<Rightarrow> ustring \<Rightarrow> nat \<Rightarrow> (nat \<times> nat) option" where
  "re_search_from pat [] i =
     (case re_match pat [] of Some n \<Rightarrow> Some (i, i + n) | None \<Rightarrow> None)"
| "re_search_from pat (x # xs) i =
     (case re_match pat (x # xs) of
        Some n \<Rightarrow> Some (i, i + n)
      | None \<Rightarrow> re_search_from pat xs (Suc i))"

definition re_search :: "atom list \<Rightarrow> ustring \<Rightarrow> (nat \<times> nat) option" where
  "re_search pat s = re_search_from pat s 0"

section \<open>The script\<close>

subsection \<open>The table\<close>

text \<open>
  \<^verbatim>\<open>TOOL_ANNOTATIONS\<close>: a dict literal with distinct keys, iterated in insertion order.
  An entry is (tool name, annotation type, title).
\<close>

type_synonym entry = "ustring \<times> ustring \<times> ustring"

definition TOOL_ANNOTATIONS :: "entry list" where
  "TOOL_ANNOTATIONS =
    [(ustr ''autotask_test_connection'', ustr ''TEST_ANNOTATIONS'', ustr ''Test Connection''),
     (ustr ''autotask_search_companies'', ustr ''READ_ONLY_ANNOTATIONS'', ustr ''Search Companies''),
     (ustr ''autotask_create_company'', ustr ''CREATE_ANNOTATIONS'', ustr ''Create Company''),
     (ustr ''autotask_update_company'', ustr ''UPDATE_ANNOTATIONS'', ustr ''Update Company''),
     (ustr ''autotask_search_contacts'', ustr ''READ_ONLY_ANNOTATIONS'', ustr ''Search Contacts''),
     (ustr ''autotask_create_contact'', ustr ''CREATE_ANNOTATIONS'', ustr ''Create Contact''),
     (ustr ''autotask_search_tickets'', ustr ''READ_ONLY_ANNOTATIONS'', ustr ''Search Tickets''),
     (ustr ''autotask_get_ticket_details'', ustr ''READ_ONLY_ANNOTATIONS'', ustr ''Get Ticket Details''),
     (ustr ''autotask_create_ticket'', ustr ''CREATE_ANNOTATIONS'', ustr ''Create Ticket''),
     (ustr ''autotask_update_ticket'', ustr ''UPDATE_ANNOTATIONS'', ustr ''Update Ticket''),
     (ustr ''autotask_create_time_entry'', ustr ''CREATE_ANNOTATIONS'', ustr ''Create Time Entry''),
     (ustr ''autotask_search_projects'', ustr ''READ_ONLY_ANNOTATIONS'', ustr ''Search Projects''),
     (ustr ''autotask_create_project'', ustr ''CREATE_ANNOTATIONS'', ustr ''Create Project''),
     (ustr ''autotask_search_resources'', ustr ''READ_ONLY_ANNOTATIONS'', ustr ''Search Resources''),
     (ustr ''autotask_get_ticket_note'', ustr ''READ_ONLY_ANNOTATIONS'', ustr ''Get Ticket Note''),
     (ustr ''autotask_search_ticket_notes'', ustr ''READ_ONLY_ANNOTATIONS'', ustr ''Search Ticket Notes''),
     (ustr ''autotask_create_ticket_note'', ustr ''CREATE_ANNOTATIONS'', ustr ''Create Ticket Note''),
     (ustr ''autotask_get_project_note'', ustr ''READ_ONLY_ANNOTATIONS'', ustr ''Get Project Note''),
     (ustr ''autotask_search_project_notes'', ustr ''READ_ONLY_ANNOTATIONS'', ustr ''Search Project Notes''),
     (ustr ''autotask_create_project_note'', ustr ''CREATE_ANNOTATIONS'', ustr ''Create Project Note''),
     (ustr ''autotask_get_company_note'', ustr ''READ_ONLY_ANNOTATIONS'', ustr ''Get Company Note''),
     (ustr ''autotask_search_company_notes'', ustr ''READ_ONLY_ANNOTATIONS'', ustr ''Search Company Notes''),
     (ustr ''autotask_create_company_note'', ustr ''CREATE_ANNOTATIONS'', ustr ''Create Company Note''),
     (ustr ''autotask_search_ticket_attachments'', ustr ''READ_ONLY_ANNOTATIONS'', ustr ''Search Ticket Attachments''),
     (ustr ''autotask_get_ticket_attachment'', ustr ''READ_ONLY_ANNOTATIONS'', ustr ''Get Ticket Attachment''),
     (ustr ''autotask_get_expense_report'', ustr ''READ_ONLY_ANNOTATIONS'', ustr ''Get Expense Report''),
     (ustr ''autotask_search_expense_reports'', ustr ''READ_ONLY_ANNOTATIONS'', ustr ''Search Expense Reports''),
     (ustr ''autotask_create_expense_report'', ustr ''CREATE_ANNOTATIONS'', ustr ''Create Expense Report''),
     (ustr ''autotask_get_quote'', ustr ''READ_ONLY_ANNOTATIONS'', ustr ''Get Quote''),
     (ustr ''autotask_search_quotes'', ustr ''READ_ONLY_ANNOTATIONS'', ustr ''Search Quotes''),
     (ustr ''autotask_create_quote'', ustr ''CREATE_ANNOTATIONS'', ustr ''Create Quote''),
     (ustr ''autotask_search_configuration_items'', ustr ''READ_ONLY_ANNOTATIONS'', ustr ''Search Configuration Items''),
     (ustr ''autotask_search_contracts'', ustr ''READ_ONLY_ANNOTATIONS'', ustr ''Search Contracts''),
     (ustr ''autotask_search_invoices'', ustr ''READ_ONLY_ANNOTATIONS'', ustr ''Search Invoices''),
     (ustr ''autotask_search_tasks'', ustr ''READ_ONLY_ANNOTATIONS'', ustr ''Search Tasks''),
     (ustr ''autotask_create_task'', ustr ''CREATE_ANNOTATIONS'', ustr ''Create Task'')]"

subsection \<open>\<^verbatim>\<open>find_tool_definition_end\<close>\<close>

text \<open>
  The \<^verbatim>\<open>while\<close> loop, with its three variables as arguments; \<open>123\<close> and \<open>125\<close> are the
  opening and the closing brace. The count is a Python integer and may go below zero.
\<close>

function find_end_loop :: "ustring \<Rightarrow> nat \<Rightarrow> int \<Rightarrow> bool \<Rightarrow> int" where
  "find_end_loop content i brace_count in_tool =
     (if i < length content then
        (if content ! i = 123 then find_end_loop content (i + 1) (brace_count + 1) True
         else if content ! i = 125 then
           (if in_tool \<and> brace_count - 1 = 0 then int i
            else find_end_loop content (i + 1) (brace_count - 1) in_tool)
         else find_end_loop content (i + 1) brace_count in_tool)
      else - 1)"
  by pat_completeness auto
termination
  by (relation "measure (\<lambda>(content, i, brace_count, in_tool). length content - i)") auto

declare find_end_loop.simps [simp del]

definition find_tool_definition_end :: "ustring \<Rightarrow> nat \<Rightarrow> int" where
  "find_tool_definition_end content start_pos = find_end_loop content start_pos 0 False"

subsection \<open>\<^verbatim>\<open>add_annotation_to_tool\<close>\<close>

text \<open>\<^verbatim>\<open>rf'name:\s*"{re.escape(tool_name)}"'\<close>: the escaped name matches itself, literally.\<close>

definition tool_pattern :: "ustring \<Rightarrow> atom list" where
  "tool_pattern tool_name =
     map Chr (ustr ''name:'') @ [Star is_space] @ map Chr (DQUOTE @ tool_name @ DQUOTE)"

text \<open>\<^verbatim>\<open>r'required:\s*\[([^\]]*)\]'\<close>; \<open>91\<close> and \<open>93\<close> are the square brackets.\<close>

definition required_pattern :: "atom list" where
  "required_pattern =
     map Chr (ustr ''required:'') @ [Star is_space, Chr 91, Star (\<lambda>c. c \<noteq> 93), Chr 93]"

text \<open>\<^verbatim>\<open>r',\s*\}'\<close>; \<open>44\<close> is the comma and \<open>125\<close> the closing brace.\<close>

definition comma_pattern :: "atom list" where
  "comma_pattern = [Chr 44, Star is_space, Chr 125]"

definition marker :: ustring where
  "marker = ustr ''annotations:''"

text \<open>The f-string \<^verbatim>\<open>annotation_block\<close>, line by line.\<close>

definition annotation_block :: "ustring \<Rightarrow> ustring \<Rightarrow> ustring" where
  "annotation_block annotation_type title =
     ustr '','' @ NL @
     ustr ''        annotations: {'' @ NL @
     ustr ''          title: '' @ DQUOTE @ title @ DQUOTE @ ustr '','' @ NL @
     ustr ''          ...'' @ annotation_type @ ustr '','' @ NL @
     ustr ''        }''"

text \<open>
  The check on the window after the declaration offset (the variable the source calls
  \<^verbatim>\<open>next_500_chars\<close> holds 1000 characters).
\<close>

definition already_annotated :: "ustring \<Rightarrow> nat \<Rightarrow> bool" where
  "already_annotated content tool_start =
     str_in marker (slice content tool_start (tool_start + 1000))"

definition add_annotation_to_tool ::
  "ustring \<Rightarrow> ustring \<Rightarrow> ustring \<Rightarrow> ustring \<Rightarrow> ustring \<times> bool" where
  "add_annotation_to_tool content tool_name annotation_type title =
     (case re_search (tool_pattern tool_name) content of
        None \<Rightarrow> (content, False)
      | Some (tool_start, tool_end) \<Rightarrow>
          if already_annotated content tool_start then (content, False)
          else
            (case re_search required_pattern (slice content tool_start (tool_start + 2000)) of
               None \<Rightarrow> (content, False)
             | Some (required_start, required_end) \<Rightarrow>
                 let insert_pos = tool_start + required_end;
                     next_chars = slice content insert_pos (insert_pos + 50)
                 in (case re_search comma_pattern next_chars of
                       None \<Rightarrow> (content, False)
                     | Some (comma_start, comma_end) \<Rightarrow>
                         let actual_insert_pos = insert_pos + comma_start + 1
                         in (take actual_insert_pos content @
                             annotation_block annotation_type title @
                             drop actual_insert_pos content, True))))"

subsection \<open>\<^verbatim>\<open>main\<close>\<close>

text \<open>
  The files the script can see, by path, and what it did to them and printed, oldest
  first. Only regular text files are modelled: a path is absent or holds a text.
\<close>

datatype event =
    PathExists ustring
  | ReadText ustring
  | WriteText ustring ustring
  | Print ustring

record world =
  files :: "ustring \<Rightarrow> ustring option"
  events :: "event list"

definition emit :: "event \<Rightarrow> world \<Rightarrow> world" where
  "emit e w = w\<lparr>events := events w @ [e]\<rparr>"

definition py_print :: "ustring \<Rightarrow> world \<Rightarrow> world" where
  "py_print line w = emit (Print line) w"

definition write_text :: "ustring \<Rightarrow> ustring \<Rightarrow> world \<Rightarrow> world" where
  "write_text path text w = emit (WriteText path text) (w\<lparr>files := (files w)(path \<mapsto> text)\<rparr>)"

text \<open>
  Paths, as the strings pathlib prints. \<open>script_dir\<close> is \<^verbatim>\<open>str(Path(__file__).parent)\<close>.
  Joining a relative path to a directory drops the directory \<^verbatim>\<open>.\<close>, adds nothing after a
  root (which ends in a slash, \<open>47\<close>) and puts one slash after any other directory.
\<close>

definition path_join :: "ustring \<Rightarrow> ustring \<Rightarrow> ustring" where
  "path_join dir rel =
     (if dir = ustr ''.'' then rel
      else if dir \<noteq> [] \<and> last dir = 47 then dir @ rel
      else dir @ ustr ''/'' @ rel)"

text \<open>
  \<^verbatim>\<open>Path(__file__).parent / "src" / "handlers" / "tool.handler.ts"\<close>: its directory and the
  path itself; and \<^verbatim>\<open>with_suffix('.ts.backup-annotations')\<close>, which replaces the last
  suffix \<^verbatim>\<open>.ts\<close> of the file name.
\<close>

definition handler_dir :: "ustring \<Rightarrow> ustring" where
  "handler_dir script_dir = path_join script_dir (ustr ''src/handlers'')"

definition handler_path :: "ustring \<Rightarrow> ustring" where
  "handler_path script_dir = handler_dir script_dir @ ustr ''/tool.handler.ts''"

definition backup_path :: "ustring \<Rightarrow> ustring" where
  "backup_path script_dir =
     handler_dir script_dir @ ustr ''/tool.handler'' @ ustr ''.ts.backup-annotations''"

text \<open>The local variables of \<^verbatim>\<open>main\<close> that the loop updates, and the world.\<close>

record run_state =
  content :: ustring
  modified_count :: nat
  skipped_count :: nat
  world :: world

definition added_line :: "ustring \<Rightarrow> ustring" where
  "added_line tool_name = [32, 32, 10003] @ ustr '' Added annotations to '' @ tool_name"

definition skipped_line :: "ustring \<Rightarrow> ustring" where
  "skipped_line tool_name =
     ustr ''  - Skipped '' @ tool_name @ ustr '' (already has annotations or not found)''"

definition loop_body :: "entry \<Rightarrow> run_state \<Rightarrow> run_state" where
  "loop_body e st =
     (case e of (tool_name, annotation_type, title) \<Rightarrow>
        (case add_annotation_to_tool (content st) tool_name annotation_type title of
           (new_content, modified) \<Rightarrow>
             if modified then
               st\<lparr>content := new_content,
                  modified_count := modified_count st + 1,
                  world := py_print (added_line tool_name) (world st)\<rparr>
             else
               st\<lparr>skipped_count := skipped_count st + 1,
                  world := py_print (skipped_line tool_name) (world st)\<rparr>))"

definition pass_loop :: "entry list \<Rightarrow> run_state \<Rightarrow> run_state" where
  "pass_loop table st = fold loop_body table st"

text \<open>\<open>main\<close> returns the exit status the script passes to \<^verbatim>\<open>exit\<close>, and the world it leaves.\<close>

definition main :: "ustring \<Rightarrow> world \<Rightarrow> nat \<times> world" where
  "main script_dir w0 =
     (let w1 = emit (PathExists (handler_path script_dir)) w0
      in (case files w1 (handler_path script_dir) of
            None \<Rightarrow>
              (1, py_print (ustr ''Error: Could not find '' @ handler_path script_dir) w1)
          | Some text \<Rightarrow>
              let w2 = py_print (ustr ''Reading '' @ handler_path script_dir @ ustr ''...'') w1;
                  w3 = emit (ReadText (handler_path script_dir)) w2;
                  w4 = write_text (backup_path script_dir) text w3;
                  w5 = py_print (ustr ''Created backup at '' @ backup_path script_dir) w4;
                  st = pass_loop TOOL_ANNOTATIONS
                         \<lparr>content = text, modified_count = 0, skipped_count = 0, world = w5\<rparr>
              in if modified_count st > 0 then
                   let w6 = write_text (handler_path script_dir) (content st) (world st);
                       w7 = py_print
                              (NL @ [10003] @ ustr '' Successfully added annotations to '' @
                               str_of_nat (modified_count st) @ ustr '' tools'') w6;
                       w8 = py_print
                              (ustr ''  ('' @ str_of_nat (skipped_count st) @
                               ustr '' tools skipped)'') w7
                   in (0, w8)
                 else
                   (0, py_print
                         (NL @ ustr ''No changes needed - all tools already have annotations'')
                         (world st))))"

section \<open>Auxiliary definitions for the analysis\<close>

text \<open>
  The offset at which \<open>add_annotation_to_tool\<close> splices (its \<^verbatim>\<open>actual_insert_pos\<close>), or
  \<open>None\<close> when it returns the buffer as it is; \<open>add_annotation_splice\<close> below proves that
  this is what the function does.
\<close>

definition splice_point :: "ustring \<Rightarrow> ustring \<Rightarrow> nat option" where
  "splice_point c tool_name =
     (case re_search (tool_pattern tool_name) c of
        None \<Rightarrow> None
      | Some (ts, te) \<Rightarrow>
          if already_annotated c ts then None
          else
            (case re_search required_pattern (slice c ts (ts + 2000)) of
               None \<Rightarrow> None
             | Some (rs, re) \<Rightarrow>
                 (case re_search comma_pattern (slice c (ts + re) (ts + re + 50)) of
                    None \<Rightarrow> None
                  | Some (cs, ce) \<Rightarrow> Some (ts + re + cs + 1))))"

text \<open>Sample inputs: a well-formed declaration, and one whose list has no closing bracket.\<close>

definition sample_name :: ustring where
  "sample_name = ustr ''autotask_test_connection''"

definition sample_type :: ustring where
  "sample_type = ustr ''TEST_ANNOTATIONS''"

definition sample_title :: ustring where
  "sample_title = ustr ''Test Connection''"

definition sample_buffer :: ustring where
  "sample_buffer = ustr ''name: '' @ DQUOTE @ sample_name @ DQUOTE @ ustr '', required: [],}''"

definition sample_malformed :: ustring where
  "sample_malformed = ustr ''name: '' @ DQUOTE @ sample_name @ DQUOTE @ ustr '', required: [}''"

definition sample_annotated :: ustring where
  "sample_annotated =
     ustr ''name: '' @ DQUOTE @ sample_name @ DQUOTE @ ustr '', annotations: {}, required: [],}''"

definition sample_dir :: ustring where
  "sample_dir = ustr ''/repo''"

definition sample_world :: world where
  "sample_world = \<lparr>files = [handler_path sample_dir \<mapsto> sample_buffer], events = []\<rparr>"

definition empty_world :: world where
  "empty_world = \<lparr>files = Map.empty, events = []\<rparr>"

text \<open>
  The run of \<open>main\<close> on an existing file, in three parts: what it does before the loop,
  the state the loop starts from, and what it does after the loop.
\<close>

definition prelude :: "ustring \<Rightarrow> ustring \<Rightarrow> event list" where
  "prelude d text =
     [PathExists (handler_path d),
      Print (ustr ''Reading '' @ handler_path d @ ustr ''...''),
      ReadText (handler_path d),
      WriteText (backup_path d) text,
      Print (ustr ''Created backup at '' @ backup_path d)]"

definition loop_entry :: "ustring \<Rightarrow> ustring \<Rightarrow> world \<Rightarrow> run_state" where
  "loop_entry d text w =
     \<lparr>content = text, modified_count = 0, skipped_count = 0,
      world = w\<lparr>files := (files w)(backup_path d \<mapsto> text),
                events := events w @ prelude d text\<rparr>\<rparr>"

definition epilogue :: "ustring \<Rightarrow> run_state \<Rightarrow> event list" where
  "epilogue d st =
     (if modified_count st > 0 then
        [WriteText (handler_path d) (content st),
         Print (NL @ [10003] @ ustr '' Successfully added annotations to '' @
                str_of_nat (modified_count st) @ ustr '' tools''),
         Print (ustr ''  ('' @ str_of_nat (skipped_count st) @ ustr '' tools skipped)'')]
      else [Print (NL @ ustr ''No changes needed - all tools already have annotations'')])"

text \<open>The text a match of the name pattern covers: the whitespace \<open>ws\<close> is what \<^verbatim>\<open>\s*\<close> took.\<close>

definition decl_text :: "ustring \<Rightarrow> ustring \<Rightarrow> ustring" where
  "decl_text ws n = ustr ''name:'' @ ws @ DQUOTE @ n @ DQUOTE"



text \<open>A closed declaration followed by another object, with and without the marker.\<close>

definition brace_buf_a :: ustring where
  "brace_buf_a =
     ustr ''{name: '' @ DQUOTE @ sample_name @ DQUOTE @ ustr ''}, {annotations: 1, required: [],}''"

definition brace_buf_b :: ustring where
  "brace_buf_b = ustr ''{name: '' @ DQUOTE @ sample_name @ DQUOTE @ ustr ''}, {required: [],}''"

text \<open>A declaration whose required list is followed by more text before the comma.\<close>

definition sample_cast :: ustring where
  "sample_cast =
     ustr ''name: '' @ DQUOTE @ sample_name @ DQUOTE @ ustr '', required: [] as const,}''"

text \<open>Both ends of a match, moved by \<open>i\<close>.\<close>

definition shift_span :: "nat \<Rightarrow> nat \<times> nat \<Rightarrow> nat \<times> nat" where
  "shift_span i ab = (fst ab + i, snd ab + i)"

text \<open>
  A buffer on which a second pass modifies the output of a first pass. The declaration of
  \<^verbatim>\<open>autotask_search_companies\<close> opens a required list that holds the declaration of
  \<^verbatim>\<open>autotask_test_connection\<close> and 953 characters \<^verbatim>\<open>z\<close> (\<open>122\<close>); a marker and a second
  list follow. \<open>cex_once\<close> is the buffer after the first pass, with the block of
  \<^verbatim>\<open>autotask_search_companies\<close> at offset 1032.
\<close>

definition cex_dy :: ustring where
  "cex_dy = decl_text [32] (ustr ''autotask_search_companies'')"

definition cex_dx :: ustring where
  "cex_dx = decl_text [32] (ustr ''autotask_test_connection'')"

definition cex_buffer :: ustring where
  "cex_buffer =
     cex_dy @ ustr '' required: ['' @ cex_dx @ replicate 953 122 @
     ustr ''],}annotations: required: [],}''"

definition cex_block :: ustring where
  "cex_block = annotation_block (ustr ''READ_ONLY_ANNOTATIONS'') (ustr ''Search Companies'')"

definition cex_once :: ustring where
  "cex_once = take 1032 cex_buffer @ cex_block @ drop 1032 cex_buffer"

definition cex_world :: world where
  "cex_world = \<lparr>files = [handler_path sample_dir \<mapsto> cex_buffer], events = []\<rparr>"

text \<open>A world whose target file is the annotated sample.\<close>

definition annotated_world :: world where
  "annotated_world = \<lparr>files = [handler_path sample_dir \<mapsto> sample_annotated], events = []\<rparr>"





section \<open>The search primitives\<close>

lemma re_match_le: "re_match pat s = Some n \<Longrightarrow> n \<le> length s"
proof (induction pat s arbitrary: n rule: re_match.induct)
  case (1 s) then show ?case by simp
next
  case (2 c r) then show ?case by simp
next
  case (3 c r x xs) then show ?case by (auto split: if_splits)
next
  case (4 P r) then show ?case by simp
next
  case (5 P r x xs) then show ?case by (auto split: if_splits option.splits)
qed

lemma re_search_from_Some:
  "re_search_from pat s i = Some (a, b) \<Longrightarrow>
     \<exists>k n. a = i + k \<and> k \<le> length s \<and> re_match pat (drop k s) = Some n \<and> b = a + n \<and>
       (\<forall>j<k. re_match pat (drop j s) = None)"
proof (induction s arbitrary: i)
  case Nil
  then show ?case by (auto split: option.splits)
next
  case (Cons x xs)
  show ?case
  proof (cases "re_match pat (x # xs)")
    case (Some n)
    with Cons.prems have "a = i" "b = i + n" by auto
    with Some show ?thesis by (intro exI[of _ 0] exI[of _ n]) simp
  next
    case None
    with Cons.prems have "re_search_from pat xs (Suc i) = Some (a, b)" by simp
    from Cons.IH[OF this] obtain k n where
      k: "a = Suc i + k" "k \<le> length xs" "re_match pat (drop k xs) = Some n" "b = a + n"
         "\<forall>j<k. re_match pat (drop j xs) = None" by blast
    have "\<forall>j<Suc k. re_match pat (drop j (x # xs)) = None"
    proof (intro allI impI)
      fix j assume "j < Suc k"
      then show "re_match pat (drop j (x # xs)) = None"
        using None k(5) by (cases j) auto
    qed
    with k show ?thesis by (intro exI[of _ "Suc k"] exI[of _ n]) simp
  qed
qed

lemma re_search_from_None:
  "re_search_from pat s i = None \<longleftrightarrow> (\<forall>k\<le>length s. re_match pat (drop k s) = None)"
proof (induction s arbitrary: i)
  case Nil
  then show ?case by (auto split: option.splits)
next
  case (Cons x xs)
  show ?case
  proof (cases "re_match pat (x # xs)")
    case (Some n)
    then show ?thesis by (auto intro: exI[of _ 0])
  next
    case None
    have "(\<forall>k\<le>length (x # xs). re_match pat (drop k (x # xs)) = None) \<longleftrightarrow>
          (\<forall>k\<le>length xs. re_match pat (drop k xs) = None)"
    proof
      assume h: "\<forall>k\<le>length (x # xs). re_match pat (drop k (x # xs)) = None"
      show "\<forall>k\<le>length xs. re_match pat (drop k xs) = None"
      proof (intro allI impI)
        fix k assume "k \<le> length xs"
        then show "re_match pat (drop k xs) = None" using h[rule_format, of "Suc k"] by simp
      qed
    next
      assume h: "\<forall>k\<le>length xs. re_match pat (drop k xs) = None"
      show "\<forall>k\<le>length (x # xs). re_match pat (drop k (x # xs)) = None"
      proof (intro allI impI)
        fix k assume "k \<le> length (x # xs)"
        then show "re_match pat (drop k (x # xs)) = None" using h None by (cases k) auto
      qed
    qed
    with None Cons.IH show ?thesis by simp
  qed
qed

lemma re_search_Some:
  "re_search pat s = Some (a, b) \<Longrightarrow>
     a \<le> length s \<and> a \<le> b \<and> b \<le> length s \<and> re_match pat (drop a s) = Some (b - a) \<and>
     (\<forall>j<a. re_match pat (drop j s) = None)"
  unfolding re_search_def
  by (drule re_search_from_Some) (auto dest: re_match_le)

lemma re_search_None:
  "re_search pat s = None \<longleftrightarrow> (\<forall>k\<le>length s. re_match pat (drop k s) = None)"
  by (simp add: re_search_def re_search_from_None)

lemma prefix_take_iff: "prefix xs ys \<longleftrightarrow> take (length xs) ys = xs"
proof
  assume "prefix xs ys"
  then show "take (length xs) ys = xs" by (auto simp: prefix_def)
next
  assume "take (length xs) ys = xs"
  then have "ys = xs @ drop (length xs) ys" by (metis append_take_drop_id)
  then show "prefix xs ys" by (metis prefixI)
qed

lemma str_in_iff:
  "str_in sub s \<longleftrightarrow> (\<exists>k. k + length sub \<le> length s \<and> take (length sub) (drop k s) = sub)"
proof (induction s)
  case Nil
  then show ?case by auto
next
  case (Cons x xs)
  have le: "length sub \<le> length (x # xs)" if "take (length sub) (x # xs) = sub"
  proof -
    have "length (take (length sub) (x # xs)) = length sub" using that by simp
    then show ?thesis by (simp del: take_Suc_Cons)
  qed
  show ?case
  proof
    assume "str_in sub (x # xs)"
    then consider "prefix sub (x # xs)" | "str_in sub xs" by auto
    then show "\<exists>k. k + length sub \<le> length (x # xs) \<and> take (length sub) (drop k (x # xs)) = sub"
    proof cases
      case 1
      then have "take (length sub) (x # xs) = sub" by (simp add: prefix_take_iff)
      with le show ?thesis by (intro exI[of _ 0]) simp
    next
      case 2
      with Cons.IH obtain k where "k + length sub \<le> length xs" "take (length sub) (drop k xs) = sub"
        by blast
      then show ?thesis by (intro exI[of _ "Suc k"]) simp
    qed
  next
    assume "\<exists>k. k + length sub \<le> length (x # xs) \<and> take (length sub) (drop k (x # xs)) = sub"
    then obtain k where k: "k + length sub \<le> length (x # xs)" "take (length sub) (drop k (x # xs)) = sub"
      by blast
    show "str_in sub (x # xs)"
    proof (cases k)
      case 0
      with k have "prefix sub (x # xs)" by (simp add: prefix_take_iff)
      then show ?thesis by simp
    next
      case (Suc j)
      with k have "j + length sub \<le> length xs" "take (length sub) (drop j xs) = sub" by auto
      with Cons.IH have "str_in sub xs" by blast
      then show ?thesis by simp
    qed
  qed
qed

section \<open>The splice\<close>

lemma add_annotation_splice:
  "add_annotation_to_tool c n a t =
     (case splice_point c n of
        None \<Rightarrow> (c, False)
      | Some p \<Rightarrow> (take p c @ annotation_block a t @ drop p c, True))"
  by (simp add: add_annotation_to_tool_def splice_point_def Let_def split: option.splits prod.splits)

lemma comma_match_pos: "re_match comma_pattern s = Some n \<Longrightarrow> 0 < n"
  by (cases s) (auto simp: comma_pattern_def split: if_splits)

lemma splice_point_le: 
  assumes "splice_point c n = Some p" shows "p \<le> length c"
proof -
  from assms obtain ts te rs re cs ce where
       3: "re_search comma_pattern (slice c (ts + re) (ts + re + 50)) = Some (cs, ce)"
   and p: "p = ts + re + cs + 1"
    by (auto simp: splice_point_def split: option.splits prod.splits if_splits)
  from re_search_Some[OF 3] have m: "re_match comma_pattern (drop cs (slice c (ts + re) (ts + re + 50))) = Some (ce - cs)"
      and le: "cs \<le> ce" "ce \<le> length (slice c (ts + re) (ts + re + 50))" by auto
  from comma_match_pos[OF m] le show ?thesis unfolding p by (auto simp: slice_def)
qed

lemma add_annotation_cases:
  "add_annotation_to_tool c n a t = (c, False) \<or>
   (\<exists>p. p \<le> length c \<and> add_annotation_to_tool c n a t = (take p c @ annotation_block a t @ drop p c, True))"
  by (cases "splice_point c n") (auto simp: add_annotation_splice dest: splice_point_le)

section \<open>The loop\<close>

lemma loop_body_splice:
  "loop_body (n, a, t) st =
     (case splice_point (content st) n of
        None \<Rightarrow> st\<lparr>skipped_count := skipped_count st + 1,
                   world := py_print (skipped_line n) (world st)\<rparr>
      | Some p \<Rightarrow> st\<lparr>content := take p (content st) @ annotation_block a t @ drop p (content st),
                     modified_count := modified_count st + 1,
                     world := py_print (added_line n) (world st)\<rparr>)"
  by (simp add: loop_body_def add_annotation_splice split: option.splits)

lemma loop_body_counts:
  "modified_count (loop_body e st) + skipped_count (loop_body e st) =
   Suc (modified_count st + skipped_count st)"
  by (cases e) (simp add: loop_body_splice split: option.splits)

lemma loop_body_files: "files (world (loop_body e st)) = files (world st)"
  by (cases e) (simp add: loop_body_splice py_print_def emit_def split: option.splits)

lemma loop_body_events:
  "\<exists>l. events (world (loop_body e st)) = events (world st) @ [Print l] \<and>
       (l = added_line (fst e) \<or> l = skipped_line (fst e))"
  by (cases e) (simp add: loop_body_splice py_print_def emit_def split: option.splits)

lemma pass_loop_Nil: "pass_loop [] st = st"
  by (simp add: pass_loop_def)

lemma pass_loop_Cons: "pass_loop (e # tb) st = pass_loop tb (loop_body e st)"
  by (simp add: pass_loop_def)

lemma pass_loop_counts:
  "modified_count (pass_loop tb st) + skipped_count (pass_loop tb st) =
   modified_count st + skipped_count st + length tb"
  by (induction tb arbitrary: st) (simp_all add: pass_loop_Nil pass_loop_Cons loop_body_counts)

lemma pass_loop_files: "files (world (pass_loop tb st)) = files (world st)"
  by (induction tb arbitrary: st) (simp_all add: pass_loop_Nil pass_loop_Cons loop_body_files)

lemma pass_loop_events:
  "\<exists>ls. events (world (pass_loop tb st)) = events (world st) @ map Print ls \<and>
        length ls = length tb \<and>
        (\<forall>i<length tb. ls ! i = added_line (fst (tb ! i)) \<or> ls ! i = skipped_line (fst (tb ! i)))"
proof (induction tb arbitrary: st)
  case Nil
  then show ?case by (simp add: pass_loop_Nil)
next
  case (Cons e tb)
  obtain l where l: "events (world (loop_body e st)) = events (world st) @ [Print l]"
      "l = added_line (fst e) \<or> l = skipped_line (fst e)"
    using loop_body_events by blast
  obtain ls where ls: "events (world (pass_loop tb (loop_body e st))) =
        events (world (loop_body e st)) @ map Print ls" "length ls = length tb"
      "\<forall>i<length tb. ls ! i = added_line (fst (tb ! i)) \<or> ls ! i = skipped_line (fst (tb ! i))"
    using Cons.IH[of "loop_body e st"] by blast
  have "\<forall>i<length (e # tb). (l # ls) ! i = added_line (fst ((e # tb) ! i)) \<or>
          (l # ls) ! i = skipped_line (fst ((e # tb) ! i))"
  proof (intro allI impI)
    fix i assume "i < length (e # tb)"
    then show "(l # ls) ! i = added_line (fst ((e # tb) ! i)) \<or>
          (l # ls) ! i = skipped_line (fst ((e # tb) ! i))"
      using l(2) ls(3) by (cases i) auto
  qed
  with l(1) ls(1,2) show ?case
    by (intro exI[of _ "l # ls"]) (simp add: pass_loop_Cons)
qed

lemma length_TOOL_ANNOTATIONS: "length TOOL_ANNOTATIONS = 36"
  by (simp add: TOOL_ANNOTATIONS_def)

section \<open>Evaluation on the samples\<close>

lemmas eval_defs = ustr_def DQUOTE_def NL_def slice_def tool_pattern_def required_pattern_def
  comma_pattern_def marker_def already_annotated_def re_search_def is_space_def

lemma sample_buffer_splice: "splice_point sample_buffer sample_name = Some 47"
  by (simp add: splice_point_def sample_buffer_def sample_name_def eval_defs)

lemma sample_malformed_name:
  "re_search (tool_pattern sample_name) sample_malformed = Some (0, 32)"
  by (simp add: sample_malformed_def sample_name_def eval_defs)

lemma sample_malformed_required:
  "re_search required_pattern (slice sample_malformed 0 (0 + 2000)) = None"
  by (simp add: sample_malformed_def sample_name_def eval_defs)

section \<open>Claims about a single entry\<close>

text \<open>
  Claim C10. For every buffer and entry, \<open>add_annotation_to_tool\<close> returns either the input
  buffer with \<open>modified = False\<close>, or \<open>pre @ annotation_block @ suf\<close> with
  \<open>pre @ suf\<close> the input buffer and \<open>modified = True\<close>: nothing is deleted, replaced or
  reordered. The input is a value, so it cannot be mutated.
\<close>

theorem add_annotation_frame:
  "(case add_annotation_to_tool c n a t of
      (new_content, modified) \<Rightarrow>
        if modified then
          (\<exists>pre suf. c = pre @ suf \<and> new_content = pre @ annotation_block a t @ suf)
        else new_content = c)"
proof (cases "splice_point c n")
  case None
  then show ?thesis by (simp add: add_annotation_splice)
next
  case (Some p)
  have "c = take p c @ drop p c" by simp
  then have "\<exists>pre suf. c = pre @ suf \<and>
      take p c @ annotation_block a t @ drop p c = pre @ annotation_block a t @ suf"
    by blast
  with Some show ?thesis by (simp add: add_annotation_splice)
qed

theorem add_annotation_frame_witness:
  "snd (add_annotation_to_tool sample_buffer sample_name sample_type sample_title) \<and>
   (\<exists>pre suf. sample_buffer = pre @ suf \<and>
      fst (add_annotation_to_tool sample_buffer sample_name sample_type sample_title) =
        pre @ annotation_block sample_type sample_title @ suf)"
proof -
  have m: "snd (add_annotation_to_tool sample_buffer sample_name sample_type sample_title)"
    by (simp add: add_annotation_splice sample_buffer_splice)
  with add_annotation_frame[where c = sample_buffer and n = sample_name and a = sample_type
      and t = sample_title]
  show ?thesis by (simp add: case_prod_beta)
qed

text \<open>
  Claim C3. When processing an entry fails for any of the four reasons (the name pattern is
  not found, the marker is in the check window, the required-list pattern is not found in
  its 2000-character window, the comma-then-brace pattern is not found in its 50-character
  window), \<open>add_annotation_to_tool\<close> returns the input buffer and \<open>False\<close>, and the loop
  body keeps the working buffer and increments the skipped count.
\<close>

theorem skip_on_failure:
  assumes "content st = c"
    and "re_search (tool_pattern n) c = None \<or>
         (\<exists>ts te. re_search (tool_pattern n) c = Some (ts, te) \<and>
            (already_annotated c ts \<or>
             re_search required_pattern (slice c ts (ts + 2000)) = None \<or>
             (\<exists>rs re. re_search required_pattern (slice c ts (ts + 2000)) = Some (rs, re) \<and>
                re_search comma_pattern (slice c (ts + re) (ts + re + 50)) = None)))"
  shows "add_annotation_to_tool c n a t = (c, False) \<and>
         content (loop_body (n, a, t) st) = c \<and>
         skipped_count (loop_body (n, a, t) st) = skipped_count st + 1 \<and>
         modified_count (loop_body (n, a, t) st) = modified_count st"
proof -
  from assms(2) have "splice_point c n = None"
    by (auto simp: splice_point_def)
  with assms(1) show ?thesis
    by (simp add: add_annotation_splice loop_body_splice)
qed

theorem skip_on_failure_witness:
  "add_annotation_to_tool sample_malformed sample_name sample_type sample_title =
     (sample_malformed, False) \<and>
   content (loop_body (sample_name, sample_type, sample_title)
     \<lparr>content = sample_malformed, modified_count = 0, skipped_count = 0, world = empty_world\<rparr>) =
     sample_malformed \<and>
   skipped_count (loop_body (sample_name, sample_type, sample_title)
     \<lparr>content = sample_malformed, modified_count = 0, skipped_count = 0, world = empty_world\<rparr>) = 1 \<and>
   modified_count (loop_body (sample_name, sample_type, sample_title)
     \<lparr>content = sample_malformed, modified_count = 0, skipped_count = 0, world = empty_world\<rparr>) = 0"
proof -
  have h: "re_search (tool_pattern sample_name) sample_malformed = None \<or>
         (\<exists>ts te. re_search (tool_pattern sample_name) sample_malformed = Some (ts, te) \<and>
            (already_annotated sample_malformed ts \<or>
             re_search required_pattern (slice sample_malformed ts (ts + 2000)) = None \<or>
             (\<exists>rs re. re_search required_pattern (slice sample_malformed ts (ts + 2000)) = Some (rs, re) \<and>
                re_search comma_pattern (slice sample_malformed (ts + re) (ts + re + 50)) = None)))"
    using sample_malformed_name sample_malformed_required by blast
  show ?thesis
    using skip_on_failure[where st = "\<lparr>content = sample_malformed, modified_count = 0, skipped_count = 0, world = empty_world\<rparr>"
        and c = sample_malformed and n = sample_name and a = sample_type and t = sample_title, OF _ h]
    by simp
qed


lemma already_annotated_iff:
  "already_annotated c ts \<longleftrightarrow>
     (\<exists>k. k + length marker \<le> 1000 \<and> ts + k + length marker \<le> length c \<and>
          slice c (ts + k) (ts + k + length marker) = marker)"
proof -
  have "take (length marker) (drop k (take 1000 (drop ts c))) = take (length marker) (drop (ts + k) c)"
    if "k + length marker \<le> 1000" for k
    using that by (simp add: drop_take min_def add.commute)
  moreover have "k + length marker \<le> length (take 1000 (drop ts c)) \<longleftrightarrow>
      k + length marker \<le> 1000 \<and> ts + k + length marker \<le> length c" for k
    by (auto simp: marker_def ustr_def)
  ultimately show ?thesis
    unfolding already_annotated_def str_in_iff slice_def by auto
qed

text \<open>
  Claim C7. The already-annotated check holds exactly when the marker occurs, whole, within
  the 1000 characters that start at the declaration offset; when it holds for the located
  declaration, the entry is skipped and the buffer is returned as it is.
\<close>

theorem already_annotated_window:
  "(already_annotated c ts \<longleftrightarrow>
     (\<exists>k. k + length marker \<le> 1000 \<and> ts + k + length marker \<le> length c \<and>
          slice c (ts + k) (ts + k + length marker) = marker)) \<and>
   (re_search (tool_pattern n) c = Some (ts, te) \<and> already_annotated c ts \<longrightarrow>
      add_annotation_to_tool c n a t = (c, False))"
  using already_annotated_iff[of c ts]
  by (auto simp: add_annotation_to_tool_def)

theorem already_annotated_window_witness:
  "already_annotated sample_annotated 0 \<and>
   add_annotation_to_tool sample_annotated sample_name sample_type sample_title =
     (sample_annotated, False)"
proof -
  have 1: "re_search (tool_pattern sample_name) sample_annotated = Some (0, 32)"
    by (simp add: sample_annotated_def sample_name_def eval_defs)
  have 2: "already_annotated sample_annotated 0"
    by (simp add: sample_annotated_def sample_name_def eval_defs)
  show ?thesis
    using already_annotated_window[where c = sample_annotated and ts = 0 and te = 32
        and n = sample_name and a = sample_type and t = sample_title] 1 2
    by blast
qed

section \<open>Claims about the run\<close>

lemma main_missing:
  assumes "files w (handler_path d) = None"
  shows "main d w =
     (1, w\<lparr>events := events w @
          [PathExists (handler_path d),
           Print (ustr ''Error: Could not find '' @ handler_path d)]\<rparr>)"
  using assms by (simp add: main_def emit_def py_print_def)

lemma main_present:
  assumes "files w (handler_path d) = Some text"
  shows "main d w =
     (let st = pass_loop TOOL_ANNOTATIONS (loop_entry d text w)
      in (0, (world st)\<lparr>
           files := (if modified_count st > 0
                     then (files (world st))(handler_path d \<mapsto> content st)
                     else files (world st)),
           events := events (world st) @ epilogue d st\<rparr>))"
  using assms
  by (simp add: main_def emit_def py_print_def write_text_def Let_def loop_entry_def
      prelude_def epilogue_def)

lemma backup_neq_handler: "backup_path d \<noteq> handler_path d"
proof
  assume "backup_path d = handler_path d"
  then have "length (backup_path d) = length (handler_path d)" by simp
  then show False by (simp add: backup_path_def handler_path_def ustr_def)
qed

text \<open>
  Claim C4. The exit status is 1 exactly when the target file does not exist, and 0 on every
  other run; when the file is missing the run prints the error line with the path and
  changes no file: it only checks the path and prints.
\<close>

theorem main_exit_status:
  "fst (main d w) = (if files w (handler_path d) = None then 1 else 0) \<and>
   (files w (handler_path d) = None \<longrightarrow>
      snd (main d w) =
        w\<lparr>events := events w @
           [PathExists (handler_path d),
            Print (ustr ''Error: Could not find '' @ handler_path d)]\<rparr>)"
proof (cases "files w (handler_path d)")
  case None
  then show ?thesis by (simp add: main_missing)
next
  case (Some body)
  then show ?thesis by (simp add: main_present Let_def)
qed

theorem main_exit_status_witness:
  "fst (main sample_dir empty_world) = 1 \<and>
   snd (main sample_dir empty_world) =
     empty_world\<lparr>events := events empty_world @
        [PathExists (handler_path sample_dir),
         Print (ustr ''Error: Could not find '' @ handler_path sample_dir)]\<rparr> \<and>
   fst (main sample_dir sample_world) = 0"
proof -
  have 1: "files empty_world (handler_path sample_dir) = None"
    by (simp add: empty_world_def)
  have 2: "files sample_world (handler_path sample_dir) \<noteq> None"
    by (simp add: sample_world_def)
  show ?thesis
    using main_exit_status[of sample_dir empty_world] main_exit_status[of sample_dir sample_world]
      1 2 by simp
qed

lemma main_events:
  assumes "files w (handler_path d) = Some text"
  shows "\<exists>ls. events (snd (main d w)) =
            events w @ prelude d text @ map Print ls @
            epilogue d (pass_loop TOOL_ANNOTATIONS (loop_entry d text w)) \<and>
          length ls = length TOOL_ANNOTATIONS \<and>
          (\<forall>i<length TOOL_ANNOTATIONS.
             ls ! i = added_line (fst (TOOL_ANNOTATIONS ! i)) \<or>
             ls ! i = skipped_line (fst (TOOL_ANNOTATIONS ! i)))"
proof -
  obtain ls where ls:
    "events (world (pass_loop TOOL_ANNOTATIONS (loop_entry d text w))) =
       events (world (loop_entry d text w)) @ map Print ls"
    "length ls = length TOOL_ANNOTATIONS"
    "\<forall>i<length TOOL_ANNOTATIONS.
       ls ! i = added_line (fst (TOOL_ANNOTATIONS ! i)) \<or>
       ls ! i = skipped_line (fst (TOOL_ANNOTATIONS ! i))"
    using pass_loop_events[of TOOL_ANNOTATIONS "loop_entry d text w"] by blast
  have "events (snd (main d w)) =
          events w @ prelude d text @ map Print ls @
          epilogue d (pass_loop TOOL_ANNOTATIONS (loop_entry d text w))"
    using ls(1) by (simp add: main_present[OF assms] Let_def loop_entry_def)
  with ls(2,3) show ?thesis by blast
qed

lemma main_backup_file:
  assumes "files w (handler_path d) = Some text"
  shows "files (snd (main d w)) (backup_path d) = Some text"
  using backup_neq_handler[of d]
  by (simp add: main_present[OF assms] Let_def pass_loop_files loop_entry_def)

lemma epilogue_no_backup:
  "e \<in> set (epilogue d st) \<Longrightarrow> e \<noteq> ReadText (backup_path d) \<and> (\<forall>x. e \<noteq> WriteText (backup_path d) x)"
  using backup_neq_handler[of d] by (auto simp: epilogue_def split: if_splits)

lemma outcome_line_heads:
  "added_line n ! 2 = 10003" "skipped_line n ! 2 = 45" "hd (added_line n) = 32" "hd (skipped_line n) = 32"
  by (simp_all add: added_line_def skipped_line_def ustr_def)

lemma epilogue_not_outcome:
  assumes "Print l \<in> set (prelude d text @ epilogue d st)"
  shows "l \<noteq> added_line n \<and> l \<noteq> skipped_line n"
proof -
  let ?A = "ustr ''Reading '' @ handler_path d @ ustr ''...''"
  let ?B = "ustr ''Created backup at '' @ backup_path d"
  let ?C = "NL @ [10003] @ ustr '' Successfully added annotations to '' @
            str_of_nat (modified_count st) @ ustr '' tools''"
  let ?D = "ustr ''  ('' @ str_of_nat (skipped_count st) @ ustr '' tools skipped)''"
  let ?E = "NL @ ustr ''No changes needed - all tools already have annotations''"
  from assms have "l = ?A \<or> l = ?B \<or> l = ?C \<or> l = ?D \<or> l = ?E"
    unfolding prelude_def epilogue_def by (simp split: if_splits; blast)
  moreover have "hd ?A \<noteq> 32" "hd ?B \<noteq> 32" "hd ?C \<noteq> 32" "?D ! 2 = 40" "hd ?E \<noteq> 32"
    by (simp_all add: ustr_def NL_def)
  ultimately have "hd l \<noteq> 32 \<or> l ! 2 = 40" by blast
  then show ?thesis using outcome_line_heads[of n] by auto
qed

text \<open>
  Claim C6. When the target file exists, the run writes the backup once, as its fourth
  step and before the first outcome line of the loop, at a path in the directory of the
  target file, with the text read from the target file; nothing after that step reads or
  writes the backup path, and the backup holds that text when the run ends.
\<close>

theorem backup_written_once:
  assumes "files w (handler_path d) = Some text"
  shows "\<exists>rest.
     events (snd (main d w)) =
       events w @
       [PathExists (handler_path d),
        Print (ustr ''Reading '' @ handler_path d @ ustr ''...''),
        ReadText (handler_path d),
        WriteText (backup_path d) text,
        Print (ustr ''Created backup at '' @ backup_path d)] @ rest \<and>
     (\<exists>ls. length ls = length TOOL_ANNOTATIONS \<and>
        rest = map Print ls @ epilogue d (pass_loop TOOL_ANNOTATIONS (loop_entry d text w))) \<and>
     (\<forall>e\<in>set rest. e \<noteq> ReadText (backup_path d) \<and> (\<forall>x. e \<noteq> WriteText (backup_path d) x)) \<and>
     files (snd (main d w)) (backup_path d) = Some text \<and>
     handler_path d = handler_dir d @ ustr ''/tool.handler.ts'' \<and>
     backup_path d = handler_dir d @ ustr ''/tool.handler.ts.backup-annotations''"
proof -
  from main_events[OF assms] obtain ls where ls:
    "events (snd (main d w)) =
       events w @ prelude d text @ map Print ls @
       epilogue d (pass_loop TOOL_ANNOTATIONS (loop_entry d text w))"
    "length ls = length TOOL_ANNOTATIONS" by blast
  let ?rest = "map Print ls @ epilogue d (pass_loop TOOL_ANNOTATIONS (loop_entry d text w))"
  have "\<forall>e\<in>set ?rest. e \<noteq> ReadText (backup_path d) \<and> (\<forall>x. e \<noteq> WriteText (backup_path d) x)"
    using epilogue_no_backup by auto
  moreover have "backup_path d = handler_dir d @ ustr ''/tool.handler.ts.backup-annotations''"
    by (simp add: backup_path_def ustr_def)
  ultimately show ?thesis
    using ls main_backup_file[OF assms]
    by (intro exI[of _ ?rest]) (auto simp: prelude_def handler_path_def)
qed

theorem backup_written_once_witness:
  "\<exists>rest.
     events (snd (main sample_dir sample_world)) =
       events sample_world @
       [PathExists (handler_path sample_dir),
        Print (ustr ''Reading '' @ handler_path sample_dir @ ustr ''...''),
        ReadText (handler_path sample_dir),
        WriteText (backup_path sample_dir) sample_buffer,
        Print (ustr ''Created backup at '' @ backup_path sample_dir)] @ rest \<and>
     (\<forall>e\<in>set rest. e \<noteq> ReadText (backup_path sample_dir) \<and>
        (\<forall>x. e \<noteq> WriteText (backup_path sample_dir) x)) \<and>
     files (snd (main sample_dir sample_world)) (backup_path sample_dir) = Some sample_buffer"
proof -
  have h: "files sample_world (handler_path sample_dir) = Some sample_buffer"
    by (simp add: sample_world_def)
  from backup_written_once[OF h] show ?thesis by blast
qed

text \<open>
  Claim C9. On every run that reaches the loop, the two counters add up to the number of
  entries of \<open>TOOL_ANNOTATIONS\<close>, which is 36, and the run prints one outcome line per
  entry, in table order; no other line it prints is an outcome line.
\<close>

theorem counters_partition_entries:
  assumes "files w (handler_path d) = Some text"
  shows "let st = pass_loop TOOL_ANNOTATIONS (loop_entry d text w) in
     modified_count st + skipped_count st = length TOOL_ANNOTATIONS \<and>
     length TOOL_ANNOTATIONS = 36 \<and>
     (\<exists>ls. events (snd (main d w)) =
              events w @ prelude d text @ map Print ls @ epilogue d st \<and>
            length ls = length TOOL_ANNOTATIONS \<and>
            (\<forall>i<length TOOL_ANNOTATIONS.
               ls ! i = added_line (fst (TOOL_ANNOTATIONS ! i)) \<or>
               ls ! i = skipped_line (fst (TOOL_ANNOTATIONS ! i)))) \<and>
     (\<forall>l n. Print l \<in> set (prelude d text @ epilogue d st) \<longrightarrow>
        l \<noteq> added_line n \<and> l \<noteq> skipped_line n)"
proof -
  have "modified_count (pass_loop TOOL_ANNOTATIONS (loop_entry d text w)) +
        skipped_count (pass_loop TOOL_ANNOTATIONS (loop_entry d text w)) =
        length TOOL_ANNOTATIONS"
    by (simp add: pass_loop_counts loop_entry_def)
  then show ?thesis
    using main_events[OF assms] length_TOOL_ANNOTATIONS epilogue_not_outcome
    unfolding Let_def by blast
qed

theorem counters_partition_entries_witness:
  "modified_count (pass_loop TOOL_ANNOTATIONS (loop_entry sample_dir sample_buffer sample_world)) +
   skipped_count (pass_loop TOOL_ANNOTATIONS (loop_entry sample_dir sample_buffer sample_world)) = 36"
proof -
  have h: "files sample_world (handler_path sample_dir) = Some sample_buffer"
    by (simp add: sample_world_def)
  from counters_partition_entries[OF h] show ?thesis by (simp add: Let_def)
qed

section \<open>Matches of the name pattern\<close>

lemma re_match_lits:
  "re_match (map Chr l @ r) s =
     (if prefix l s then map_option (\<lambda>n. length l + n) (re_match r (drop (length l) s)) else None)"
proof (induction l arbitrary: s)
  case Nil
  then show ?case by (cases "re_match r s") auto
next
  case (Cons a l)
  show ?case
  proof (cases s)
    case Nil
    then show ?thesis by simp
  next
    case (Cons x xs)
    then show ?thesis using Cons.IH[of xs]
      by (auto simp: option.map_comp comp_def)
  qed
qed

lemma re_match_star_chr:
  assumes "\<not> P c"
  shows "re_match (Star P # Chr c # r) s =
     map_option (\<lambda>n. length (takeWhile P s) + n) (re_match (Chr c # r) (dropWhile P s))"
proof (induction s)
  case Nil
  then show ?case by simp
next
  case (Cons x xs)
  show ?case
  proof (cases "P x")
    case True
    with assms have "x \<noteq> c" by auto
    with True Cons.IH show ?thesis
      by (cases "re_match (Chr c # r) (dropWhile P xs)") auto
  next
    case False
    then show ?thesis by (cases "re_match (Chr c # r) (x # xs)") auto
  qed
qed

lemma star_chr_iff:
  assumes "\<not> P c"
  shows "re_match (Star P # Chr c # r) s = Some m \<longleftrightarrow>
     (\<exists>ws rest k. s = ws @ c # rest \<and> (\<forall>x\<in>set ws. P x) \<and> re_match r rest = Some k \<and>
        m = length ws + 1 + k)"
proof
  assume "re_match (Star P # Chr c # r) s = Some m"
  then obtain j where j: "re_match (Chr c # r) (dropWhile P s) = Some j"
      "m = length (takeWhile P s) + j"
    using assms by (auto simp: re_match_star_chr)
  then obtain rest k where rest: "dropWhile P s = c # rest" "re_match r rest = Some k" "j = Suc k"
    by (cases "dropWhile P s") (auto split: if_splits)
  have "takeWhile P s @ dropWhile P s = s" by simp
  then have eq: "takeWhile P s @ c # rest = s" unfolding rest(1) .
  have "s = takeWhile P s @ c # rest \<and> (\<forall>x\<in>set (takeWhile P s). P x) \<and>
      re_match r rest = Some k \<and> m = length (takeWhile P s) + 1 + k"
  proof (intro conjI)
    show "s = takeWhile P s @ c # rest" by (rule eq[symmetric])
    show "\<forall>x\<in>set (takeWhile P s). P x" by (auto dest: set_takeWhileD)
    show "re_match r rest = Some k" by (rule rest(2))
    show "m = length (takeWhile P s) + 1 + k" using rest(3) j(2) by simp
  qed
  then show "\<exists>ws rest k. s = ws @ c # rest \<and> (\<forall>x\<in>set ws. P x) \<and>
      re_match r rest = Some k \<and> m = length ws + 1 + k"
    by blast
next
  assume "\<exists>ws rest k. s = ws @ c # rest \<and> (\<forall>x\<in>set ws. P x) \<and> re_match r rest = Some k \<and>
        m = length ws + 1 + k"
  then obtain ws rest k where h: "s = ws @ c # rest" "\<forall>x\<in>set ws. P x"
      "re_match r rest = Some k" "m = length ws + 1 + k" by blast
  have "takeWhile P s = ws" "dropWhile P s = c # rest"
    using h(1,2) assms by (simp_all add: takeWhile_append2 dropWhile_append2)
  with h(3,4) assms show "re_match (Star P # Chr c # r) s = Some m"
    by (simp add: re_match_star_chr)
qed

lemma not_space_simps: "\<not> is_space 34" "\<not> is_space 91" "\<not> is_space 125" "\<not> is_space 44"
  "\<not> is_space 110"
  by (simp_all add: is_space_def)

lemma tool_match_iff:
  "re_match (tool_pattern n) s = Some m \<longleftrightarrow>
     (\<exists>ws. (\<forall>x\<in>set ws. is_space x) \<and> prefix (decl_text ws n) s \<and>
           m = length (decl_text ws n))"
proof -
  let ?N = "ustr ''name:''"
  let ?tl = "Star is_space # Chr 34 # map Chr (n @ DQUOTE) @ []"
  have pat: "tool_pattern n = map Chr ?N @ ?tl"
    by (simp add: tool_pattern_def DQUOTE_def)
  have lit: "re_match (map Chr (n @ DQUOTE) @ []) rest = Some k \<longleftrightarrow>
      prefix (n @ DQUOTE) rest \<and> k = length n + 1" for rest k
    unfolding re_match_lits by (auto simp: DQUOTE_def)
  have star: "re_match ?tl t = Some j \<longleftrightarrow>
      (\<exists>ws rest. t = ws @ 34 # rest \<and> (\<forall>x\<in>set ws. is_space x) \<and>
          prefix (n @ DQUOTE) rest \<and> j = length ws + 1 + (length n + 1))" for t j
  proof -
    have "re_match ?tl t = Some j \<longleftrightarrow>
      (\<exists>ws rest k. t = ws @ 34 # rest \<and> (\<forall>x\<in>set ws. is_space x) \<and>
          re_match (map Chr (n @ DQUOTE) @ []) rest = Some k \<and> j = length ws + 1 + k)"
      by (rule star_chr_iff) (rule not_space_simps(1))
    then show ?thesis unfolding lit by blast
  qed
  show ?thesis
  proof
    assume "re_match (tool_pattern n) s = Some m"
    then obtain j where j: "prefix ?N s" "re_match ?tl (drop (length ?N) s) = Some j"
        "m = length ?N + j"
      unfolding pat re_match_lits by (auto split: if_splits)
    from j(2) obtain ws rest where w: "drop (length ?N) s = ws @ 34 # rest"
        "\<forall>x\<in>set ws. is_space x" "prefix (n @ DQUOTE) rest" "j = length ws + 1 + (length n + 1)"
      unfolding star by blast
    from w(3) obtain r where r: "rest = n @ DQUOTE @ r" by (auto simp: prefix_def)
    from j(1) obtain t where t: "s = ?N @ t" by (auto simp: prefix_def)
    with w(1) have "t = ws @ 34 # rest" by simp
    with t r have "s = decl_text ws n @ r"
      by (simp add: decl_text_def DQUOTE_def)
    then have "prefix (decl_text ws n) s" by (rule prefixI)
    moreover have "m = length (decl_text ws n)"
      using j(3) w(4) by (simp add: decl_text_def DQUOTE_def)
    ultimately show "\<exists>ws. (\<forall>x\<in>set ws. is_space x) \<and> prefix (decl_text ws n) s \<and>
           m = length (decl_text ws n)" using w(2) by blast
  next
    assume "\<exists>ws. (\<forall>x\<in>set ws. is_space x) \<and> prefix (decl_text ws n) s \<and>
           m = length (decl_text ws n)"
    then obtain ws r where h: "\<forall>x\<in>set ws. is_space x" "s = decl_text ws n @ r"
        "m = length (decl_text ws n)" by (auto simp: prefix_def)
    have d: "drop (length ?N) s = ws @ 34 # (n @ DQUOTE @ r)"
      using h(2) by (simp add: decl_text_def DQUOTE_def)
    have "re_match ?tl (drop (length ?N) s) = Some (length ws + 1 + (length n + 1))"
      unfolding star using h(1) d by (intro exI[of _ ws] exI[of _ "n @ DQUOTE @ r"]) simp
    moreover have "prefix ?N s" using h(2) by (simp add: decl_text_def)
    ultimately show "re_match (tool_pattern n) s = Some m"
      unfolding pat re_match_lits using h(3)
      by (simp add: decl_text_def DQUOTE_def)
  qed
qed

lemma re_search_SomeI:
  assumes "a \<le> length s" "re_match pat (drop a s) = Some n"
    and "\<forall>j<a. re_match pat (drop j s) = None"
  shows "re_search pat s = Some (a, a + n)"
proof -
  have "re_search pat s \<noteq> None"
    using assms(1,2) by (auto simp: re_search_None)
  then obtain a' b' where r: "re_search pat s = Some (a', b')" by auto
  from re_search_Some[OF r] have h: "a' \<le> b'" "re_match pat (drop a' s) = Some (b' - a')"
      "\<forall>j<a'. re_match pat (drop j s) = None" by auto
  have "a' = a"
  proof (rule ccontr)
    assume "a' \<noteq> a"
    then consider "a' < a" | "a < a'" by linarith
    then show False using assms(2,3) h(2,3) by cases auto
  qed
  with h(1,2) assms(2) have "b' = a + n" by auto
  with r \<open>a' = a\<close> show ?thesis by simp
qed

lemma prefix_nth: "prefix xs ys \<Longrightarrow> i < length xs \<Longrightarrow> xs ! i = ys ! i"
  by (auto simp: prefix_def nth_append)


lemma str_in_prefix_drop:
  assumes "prefix sub (drop k s)" "k \<le> length s"
  shows "str_in sub s"
proof -
  from assms(1) have "take (length sub) (drop k s) = sub" by (simp add: prefix_take_iff)
  moreover from assms have "k + length sub \<le> length s"
    using prefix_length_le[OF assms(1)] by simp
  ultimately show ?thesis unfolding str_in_iff by blast
qed

lemma nth_take_drop: "i < n \<Longrightarrow> k + i < length zs \<Longrightarrow> take n (drop k zs) ! i = zs ! (k + i)"
  by simp


lemma annotation_block_shape:
  "annotation_block a t \<noteq> []" "hd (annotation_block a t) = 44" "last (annotation_block a t) = 125"
  by (simp_all add: annotation_block_def ustr_def NL_def DQUOTE_def)


lemma set_decl_text:
  "set (decl_text ws n) = set (ustr ''name:'') \<union> set ws \<union> {34} \<union> set n"
  by (auto simp: decl_text_def DQUOTE_def)

lemma decl_text_clean:
  assumes "\<forall>x\<in>set ws. is_space x" "x \<notin> set n" "\<not> is_space x" "x \<noteq> 34"
    "x \<notin> set (ustr ''name:'')"
  shows "x \<notin> set (decl_text ws n)"
  using assms unfolding set_decl_text by auto









section \<open>Every scan reads a fixed window\<close>

lemma prefix_within_take:
  assumes "take K c' = take K c" "j + length D \<le> K" "prefix D (drop j c')"
  shows "prefix D (drop j c)"
proof -
  have eq: "take (length D) (drop j x) = take (length D) (drop j (take K x))" for x :: "'a list"
    using assms(2) by (simp add: drop_take min_def)
  from assms(3) have "take (length D) (drop j c') = D" by (simp add: prefix_take_iff)
  then have "take (length D) (drop j (take K c')) = D" by (simp only: eq[symmetric])
  then have "take (length D) (drop j (take K c)) = D" by (simp only: assms(1))
  then have "take (length D) (drop j c) = D" by (simp only: eq[symmetric])
  then show ?thesis by (simp add: prefix_take_iff)
qed

lemma slice_within_take:
  assumes "take K c' = take K c" "b \<le> K"
  shows "slice c' a b = slice c a b"
proof -
  have eq: "slice x a b = slice (take K x) a b" for x :: "'a list"
    using assms(2) by (simp add: slice_def drop_take min_def)
  show ?thesis by (simp only: eq[of c'] eq[of c] assms(1))
qed

lemma decl_text_split:
  "decl_text ws n = 110 # (ustr ''ame:'' @ ws @ DQUOTE) @ (n @ DQUOTE)"
  by (simp add: decl_text_def ustr_def)

lemma decl_text_length: "length (decl_text ws n) = length ws + length n + 7"
  by (simp add: decl_text_def ustr_def DQUOTE_def)

lemma decl_text_no_n:
  assumes "\<forall>x\<in>set ws. is_space x" "1 \<le> i" "i \<le> length ws + 5"
  shows "decl_text ws n ! i \<noteq> 110"
proof -
  let ?E = "ustr ''ame:'' @ ws @ DQUOTE"
  have len: "length ?E = length ws + 5" by (simp add: ustr_def DQUOTE_def)
  have "110 \<notin> set ?E" using assms(1) not_space_simps(5) by (auto simp: ustr_def DQUOTE_def)
  moreover have "decl_text ws n ! i = ?E ! (i - 1)"
    using assms(2,3) len unfolding decl_text_split by (cases i) (simp_all add: nth_append)
  moreover have "?E ! (i - 1) \<in> set ?E" using assms(2,3) len by (intro nth_mem) linarith
  ultimately show ?thesis by metis
qed

lemma tool_search_local:
  assumes s: "re_search (tool_pattern n) c = Some (ts, te)"
    and eq: "take K c' = take K c" and K: "te \<le> K"
  shows "re_search (tool_pattern n) c' = Some (ts, te)"
proof -
  let ?pat = "tool_pattern n"
  from re_search_Some[OF s] have ts: "ts \<le> length c" "ts \<le> te" "te \<le> length c"
    and match: "re_match ?pat (drop ts c) = Some (te - ts)"
    and least: "\<forall>j<ts. re_match ?pat (drop j c) = None" by auto
  from match obtain ws where ws: "\<forall>x\<in>set ws. is_space x" "prefix (decl_text ws n) (drop ts c)"
      "te - ts = length (decl_text ws n)"
    unfolding tool_match_iff by blast
  let ?D = "decl_text ws n"
  have te: "te = ts + length ?D" using ws(3) ts(2) by linarith
  have inD: "prefix ?D (drop ts c')"
    using eq[symmetric] _ ws(2) by (rule prefix_within_take) (use te K in simp)
  have len': "length c' \<ge> te"
  proof -
    have "length (take K c') = length (take K c)" by (simp only: eq)
    then show ?thesis using K ts(3) by (simp add: min_def split: if_splits)
  qed
  have at_ts: "c' ! ts = 110"
  proof -
    have "?D ! 0 = drop ts c' ! 0" by (rule prefix_nth[OF inD]) (simp add: decl_text_length)
    moreover have "drop ts c' ! 0 = c' ! ts" using len' te by (simp add: decl_text_length)
    ultimately show ?thesis by (simp add: decl_text_split)
  qed
  have none: "re_match ?pat (drop j c') = None" if j: "j < ts" for j
  proof (rule ccontr)
    assume "re_match ?pat (drop j c') \<noteq> None"
    then obtain ws' where ws': "\<forall>x\<in>set ws'. is_space x" "prefix (decl_text ws' n) (drop j c')"
      by (auto simp: tool_match_iff)
    let ?D' = "decl_text ws' n"
    have before: "j + length ws' + 5 < ts"
    proof (rule ccontr)
      assume "\<not> j + length ws' + 5 < ts"
      then have i: "1 \<le> ts - j" "ts - j \<le> length ws' + 5" using j by linarith+
      then have "ts - j < length ?D'" by (simp add: decl_text_length)
      then have "?D' ! (ts - j) = drop j c' ! (ts - j)" by (rule prefix_nth[OF ws'(2)])
      also have "\<dots> = c' ! ts" using j len' te by simp
      finally have "?D' ! (ts - j) = 110" using at_ts by simp
      with decl_text_no_n[OF ws'(1) i] show False by contradiction
    qed
    then have "j + length ?D' \<le> K" using te K by (simp add: decl_text_length)
    with eq ws'(2) have "prefix ?D' (drop j c)" by (intro prefix_within_take[of K c' c]) simp_all
    then have "re_match ?pat (drop j c) = Some (length ?D')"
      unfolding tool_match_iff using ws'(1) by blast
    with least j show False by auto
  qed
  have "re_search ?pat c' = Some (ts, ts + length ?D)"
  proof (rule re_search_SomeI)
    show "ts \<le> length c'" using len' ts(2) by linarith
    show "re_match ?pat (drop ts c') = Some (length ?D)"
      unfolding tool_match_iff using ws(1) inD by blast
    show "\<forall>j<ts. re_match ?pat (drop j c') = None" using none by blast
  qed
  then show ?thesis using te by simp
qed

lemma comma_match_le_50:
  assumes "re_search required_pattern (slice c ts (ts + 2000)) = Some (rs, re)"
  shows "re \<le> 2000"
  using re_search_Some[OF assms] by (simp add: slice_def)

text \<open>
  Claim C8, as amended. No scan made while an entry is processed uses
  \<open>find_tool_definition_end\<close>; each one reads a fixed number of characters. Once the
  declaration is found at \<open>ts\<close>, its match ending at \<open>te\<close>, the outcome depends only on the
  first \<open>max te (ts + 2050)\<close> characters of the buffer: a buffer that agrees with it on those
  gives the same declaration offset, the same splice point and the same \<open>modified\<close>.
\<close>

theorem scans_bounded_by_counts:
  assumes "re_search (tool_pattern n) c = Some (ts, te)"
    and "take (max te (ts + 2050)) c' = take (max te (ts + 2050)) c"
  shows "re_search (tool_pattern n) c' = Some (ts, te) \<and>
         splice_point c' n = splice_point c n \<and>
         snd (add_annotation_to_tool c' n a t) = snd (add_annotation_to_tool c n a t)"
proof -
  let ?K = "max te (ts + 2050)"
  have s': "re_search (tool_pattern n) c' = Some (ts, te)"
    using assms by (rule tool_search_local) simp
  have w: "slice c' x y = slice c x y" if "y \<le> ts + 2050" for x y
    using assms(2) by (rule slice_within_take) (use that in simp)
  have aa: "already_annotated c' ts = already_annotated c ts"
    by (simp add: already_annotated_def w)
  have rq: "slice c' ts (ts + 2000) = slice c ts (ts + 2000)" by (simp add: w)
  have cm: "slice c' (ts + re) (ts + re + 50) = slice c (ts + re) (ts + re + 50)"
    if "re_search required_pattern (slice c ts (ts + 2000)) = Some (rs, re)" for rs re
    using comma_match_le_50[OF that] by (intro w) simp
  have sp: "splice_point c' n = splice_point c n"
    unfolding splice_point_def s' assms(1) by (simp add: aa rq cm split: option.splits)
  then have "snd (add_annotation_to_tool c' n a t) = snd (add_annotation_to_tool c n a t)"
    by (simp add: add_annotation_splice split: option.splits)
  with s' sp show ?thesis by blast
qed

lemma brace_buf_a_eval:
  "find_tool_definition_end brace_buf_a 0 = 33"
  "re_search (tool_pattern sample_name) brace_buf_a = Some (1, 33)"
  "\<not> str_in marker (slice brace_buf_a 1 34)"
  "splice_point brace_buf_a sample_name = None"
  by (simp_all add: find_tool_definition_end_def brace_buf_a_def sample_name_def eval_defs
      find_end_loop.simps splice_point_def)

lemma brace_buf_b_eval:
  "find_tool_definition_end brace_buf_b 0 = 33"
  "re_search (tool_pattern sample_name) brace_buf_b = Some (1, 33)"
  "re_search required_pattern (slice brace_buf_b 1 34) = None"
  "re_search required_pattern (slice brace_buf_b 1 2001) = Some (36, 48)"
  "splice_point brace_buf_b sample_name = Some 50"
  by (simp_all add: find_tool_definition_end_def brace_buf_b_def sample_name_def eval_defs
      find_end_loop.simps splice_point_def)

text \<open>
  The claim as stated fails. In \<open>brace_buf_a\<close> and \<open>brace_buf_b\<close> the braces opened at offset 0
  close at offset 33, where the helper stops. In the first buffer no marker occurs up to
  that brace, and the entry is skipped as annotated because of a marker further on; in the
  second no required list occurs up to that brace, and the block is spliced at offset 50,
  after a list further on.
\<close>

theorem helper_not_used_counterexample:
  "find_tool_definition_end brace_buf_a 0 = 33 \<and>
   re_search (tool_pattern sample_name) brace_buf_a = Some (1, 33) \<and>
   \<not> str_in marker (slice brace_buf_a 1 34) \<and>
   add_annotation_to_tool brace_buf_a sample_name sample_type sample_title =
     (brace_buf_a, False) \<and>
   find_tool_definition_end brace_buf_b 0 = 33 \<and>
   re_search (tool_pattern sample_name) brace_buf_b = Some (1, 33) \<and>
   re_search required_pattern (slice brace_buf_b 1 34) = None \<and>
   add_annotation_to_tool brace_buf_b sample_name sample_type sample_title =
     (take 50 brace_buf_b @ annotation_block sample_type sample_title @ drop 50 brace_buf_b,
      True)"
proof -
  have "add_annotation_to_tool brace_buf_a sample_name sample_type sample_title =
     (brace_buf_a, False)" by (simp add: add_annotation_splice brace_buf_a_eval)
  moreover have "add_annotation_to_tool brace_buf_b sample_name sample_type sample_title =
     (take 50 brace_buf_b @ annotation_block sample_type sample_title @ drop 50 brace_buf_b,
      True)" by (simp add: add_annotation_splice brace_buf_b_eval)
  ultimately show ?thesis using brace_buf_a_eval brace_buf_b_eval by blast
qed

lemma long_buffer_name:
  "re_search (tool_pattern sample_name) (sample_buffer @ replicate 2050 32 @ x) = Some (0, 32)"
  by (simp add: sample_buffer_def sample_name_def eval_defs)

theorem scans_bounded_by_counts_witness:
  "re_search (tool_pattern sample_name)
     (sample_buffer @ replicate 2050 32 @ ustr ''}}}'') = Some (0, 32) \<and>
   splice_point (sample_buffer @ replicate 2050 32 @ ustr ''}}}'') sample_name =
   splice_point (sample_buffer @ replicate 2050 32 @ ustr ''{{{'') sample_name \<and>
   snd (add_annotation_to_tool (sample_buffer @ replicate 2050 32 @ ustr ''}}}'')
         sample_name sample_type sample_title) =
   snd (add_annotation_to_tool (sample_buffer @ replicate 2050 32 @ ustr ''{{{'')
         sample_name sample_type sample_title)"
proof -
  have "length sample_buffer \<le> 2050"
    by (simp add: sample_buffer_def sample_name_def ustr_def DQUOTE_def)
  then have 2: "take (max 32 (0 + 2050)) (sample_buffer @ replicate 2050 32 @ ustr ''}}}'') =
      take (max 32 (0 + 2050)) (sample_buffer @ replicate 2050 32 @ ustr ''{{{'')"
    by simp
  show ?thesis using scans_bounded_by_counts[OF long_buffer_name 2] by blast
qed

section \<open>Where the block is spliced\<close>

lemma take_eq_appendD: "take k xs = ys \<Longrightarrow> \<exists>zs. xs = ys @ zs"
  by (metis append_take_drop_id)

lemma comma_match_iff:
  "re_match comma_pattern s = Some m \<longleftrightarrow>
     (\<exists>ws rest. s = 44 # ws @ 125 # rest \<and> (\<forall>x\<in>set ws. is_space x) \<and> m = length ws + 2)"
proof -
  have star: "re_match [Star is_space, Chr 125] t = Some j \<longleftrightarrow>
      (\<exists>ws rest k. t = ws @ 125 # rest \<and> (\<forall>x\<in>set ws. is_space x) \<and>
          re_match [] rest = Some k \<and> j = length ws + 1 + k)" for t j
    by (rule star_chr_iff) (rule not_space_simps(3))
  show ?thesis
  proof (cases s)
    case Nil
    then show ?thesis by (simp add: comma_pattern_def)
  next
    case (Cons x xs)
    show ?thesis
    proof (cases "x = 44")
      case True
      have "re_match comma_pattern s = Some m \<longleftrightarrow>
          (\<exists>j. re_match [Star is_space, Chr 125] xs = Some j \<and> m = Suc j)"
        using Cons True by (auto simp: comma_pattern_def)
      also have "\<dots> \<longleftrightarrow> (\<exists>ws rest. xs = ws @ 125 # rest \<and> (\<forall>x\<in>set ws. is_space x) \<and>
          m = length ws + 2)"
        unfolding star by auto
      finally show ?thesis using Cons True by simp
    next
      case False
      then show ?thesis using Cons by (simp add: comma_pattern_def)
    qed
  qed
qed

lemma required_match_end:
  assumes "re_match required_pattern s = Some m"
  shows "0 < m \<and> m \<le> length s \<and> s ! (m - 1) = 93"
proof -
  let ?R = "ustr ''required:''"
  have pat: "required_pattern = map Chr ?R @ (Star is_space # Chr 91 # [Star (\<lambda>c. c \<noteq> 93), Chr 93])"
    by (simp add: required_pattern_def)
  have inner: "re_match [Star (\<lambda>c. c \<noteq> 93), Chr 93] t = Some k \<longleftrightarrow>
      (\<exists>body rest j. t = body @ 93 # rest \<and> (\<forall>x\<in>set body. x \<noteq> 93) \<and>
          re_match [] rest = Some j \<and> k = length body + 1 + j)" for t k
    by (rule star_chr_iff) simp
  have outer: "re_match (Star is_space # Chr 91 # [Star (\<lambda>c. c \<noteq> 93), Chr 93]) t = Some j \<longleftrightarrow>
      (\<exists>ws rest k. t = ws @ 91 # rest \<and> (\<forall>x\<in>set ws. is_space x) \<and>
          re_match [Star (\<lambda>c. c \<noteq> 93), Chr 93] rest = Some k \<and> j = length ws + 1 + k)" for t j
    by (rule star_chr_iff) (rule not_space_simps(2))
  from assms obtain j where j: "prefix ?R s"
      "re_match (Star is_space # Chr 91 # [Star (\<lambda>c. c \<noteq> 93), Chr 93]) (drop (length ?R) s) = Some j"
      "m = length ?R + j"
    unfolding pat re_match_lits by (auto split: if_splits)
  from j(2) obtain ws r1 k where w: "drop (length ?R) s = ws @ 91 # r1"
      "re_match [Star (\<lambda>c. c \<noteq> 93), Chr 93] r1 = Some k" "j = length ws + 1 + k"
    unfolding outer by blast
  from w(2) obtain body r2 where b: "r1 = body @ 93 # r2" "k = length body + 1"
    unfolding inner by auto
  from j(1) obtain u where u: "s = ?R @ u" by (auto simp: prefix_def)
  with w(1) have "u = ws @ 91 # r1" by simp
  with u b(1) have s: "s = (?R @ ws @ 91 # body) @ 93 # r2" by simp
  have m: "m = length (?R @ ws @ 91 # body) + 1" using j(3) w(3) b(2) by simp
  have "s ! (m - 1) = 93" unfolding m by (subst s) (simp only: add_diff_cancel_right' nth_append_length)
  moreover have "m \<le> length s" unfolding m by (subst s) simp
  ultimately show ?thesis using m by simp
qed

text \<open>
  Claim C1, as amended. When the splice succeeds, the new buffer is the old one with one
  copy of the annotation block, carrying the title and the annotation type, inserted at
  one offset; nothing else changes. The offset is not the one right after the closing
  bracket of the required list: it is right after the first comma that, within the 50
  characters after that bracket, is followed by optional whitespace and a closing brace.
  So the block stands between that comma and the whitespace and brace that close the
  declaration.
\<close>

theorem splice_after_comma:
  assumes "add_annotation_to_tool c n a t = (c', True)"
  shows "\<exists>ts te rs re cs ws rest.
      re_search (tool_pattern n) c = Some (ts, te) \<and>
      re_search required_pattern (slice c ts (ts + 2000)) = Some (rs, re) \<and>
      0 < re \<and> c ! (ts + re - 1) = 93 \<and>
      cs + length ws + 2 \<le> 50 \<and>
      drop (ts + re + cs) c = 44 # ws @ 125 # rest \<and> (\<forall>x\<in>set ws. is_space x) \<and>
      (\<forall>j<cs. re_match comma_pattern (drop j (slice c (ts + re) (ts + re + 50))) = None) \<and>
      c' = take (ts + re + cs + 1) c @ annotation_block a t @ drop (ts + re + cs + 1) c \<and>
      length c' = length c + length (annotation_block a t)"
proof -
  from assms obtain p where p: "splice_point c n = Some p"
      "c' = take p c @ annotation_block a t @ drop p c"
    by (cases "splice_point c n") (auto simp: add_annotation_splice)
  from p(1) obtain ts te rs re cs ce where
      1: "re_search (tool_pattern n) c = Some (ts, te)"
  and 2: "re_search required_pattern (slice c ts (ts + 2000)) = Some (rs, re)"
  and 3: "re_search comma_pattern (slice c (ts + re) (ts + re + 50)) = Some (cs, ce)"
  and pe: "p = ts + re + cs + 1"
    by (auto simp: splice_point_def split: option.splits prod.splits if_splits)
  let ?w = "slice c ts (ts + 2000)"
  from re_search_Some[OF 2] have r: "rs \<le> re" "re \<le> length ?w"
      "re_match required_pattern (drop rs ?w) = Some (re - rs)" by auto
  from required_match_end[OF r(3)] have e: "0 < re - rs" "drop rs ?w ! (re - rs - 1) = 93" by auto
  have re0: "0 < re" using e(1) by simp
  have "drop rs ?w ! (re - rs - 1) = ?w ! (re - 1)" using r(1,2) e(1) by simp
  also have "\<dots> = c ! (ts + (re - 1))"
  proof -
    have "re \<le> 2000" "re \<le> length c - ts" using r(2) by (simp_all add: slice_def)
    with re0 have "re - 1 < 2000" "ts + (re - 1) < length c" by linarith+
    then show ?thesis unfolding slice_def by (simp add: nth_take_drop)
  qed
  also have "\<dots> = c ! (ts + re - 1)" using re0 by simp
  finally have br: "c ! (ts + re - 1) = 93" using e(2) by simp
  let ?nx = "slice c (ts + re) (ts + re + 50)"
  from re_search_Some[OF 3] have k: "cs \<le> ce" "ce \<le> length ?nx"
      "re_match comma_pattern (drop cs ?nx) = Some (ce - cs)"
      "\<forall>j<cs. re_match comma_pattern (drop j ?nx) = None" by auto
  from k(3) obtain ws r0 where ws: "drop cs ?nx = 44 # ws @ 125 # r0" "\<forall>x\<in>set ws. is_space x"
      "ce - cs = length ws + 2"
    unfolding comma_match_iff by blast
  have "ce \<le> 50" using k(2) by (simp add: slice_def)
  with k(1) ws(3) have len50: "cs + length ws + 2 \<le> 50" by linarith
  have "drop cs ?nx = take (50 - cs) (drop (ts + re + cs) c)"
    by (simp add: slice_def drop_take add.commute)
  with ws(1) have "take (50 - cs) (drop (ts + re + cs) c) = 44 # ws @ 125 # r0" by simp
  then obtain zs where zs: "drop (ts + re + cs) c = (44 # ws @ 125 # r0) @ zs"
    by (blast dest: take_eq_appendD)
  then have dr: "drop (ts + re + cs) c = 44 # ws @ 125 # (r0 @ zs)" by simp
  have "length c' = length c + length (annotation_block a t)"
    using splice_point_le[OF p(1)] by (simp add: p(2))
  with 1 2 re0 br len50 dr ws(2) k(4) p(2) pe show ?thesis by blast
qed

lemma sample_cast_eval:
  "splice_point sample_cast sample_name = Some 56"
  "sample_cast ! 45 = 93"
  "re_search required_pattern (slice sample_cast 0 2000) = Some (34, 46)"
  by (simp_all add: splice_point_def sample_cast_def sample_name_def eval_defs)

text \<open>
  The claim as stated fails on \<open>sample_cast\<close>: the required list closes at offset 45, the
  block is spliced at offset 56, after the text \<^verbatim>\<open> as const,\<close>, and the result differs from
  the buffer with the block right after the bracket, at offset 46.
\<close>

theorem splice_after_bracket_counterexample:
  "re_search required_pattern (slice sample_cast 0 2000) = Some (34, 46) \<and>
   sample_cast ! 45 = 93 \<and>
   add_annotation_to_tool sample_cast sample_name sample_type sample_title =
     (take 56 sample_cast @ annotation_block sample_type sample_title @ drop 56 sample_cast,
      True) \<and>
   take 56 sample_cast @ annotation_block sample_type sample_title @ drop 56 sample_cast \<noteq>
   take 46 sample_cast @ annotation_block sample_type sample_title @ drop 46 sample_cast"
proof -
  have "take 56 sample_cast @ annotation_block sample_type sample_title @ drop 56 sample_cast \<noteq>
    take 46 sample_cast @ annotation_block sample_type sample_title @ drop 46 sample_cast"
    by (simp add: sample_cast_def sample_name_def sample_type_def sample_title_def
        annotation_block_def ustr_def DQUOTE_def NL_def)
  then show ?thesis
    using sample_cast_eval by (simp add: add_annotation_splice)
qed

theorem splice_after_comma_witness:
  "\<exists>ts te rs re cs ws rest.
      re_search (tool_pattern sample_name) sample_cast = Some (ts, te) \<and>
      re_search required_pattern (slice sample_cast ts (ts + 2000)) = Some (rs, re) \<and>
      0 < re \<and> sample_cast ! (ts + re - 1) = 93 \<and>
      cs + length ws + 2 \<le> 50 \<and>
      drop (ts + re + cs) sample_cast = 44 # ws @ 125 # rest \<and> (\<forall>x\<in>set ws. is_space x) \<and>
      take 56 sample_cast @ annotation_block sample_type sample_title @ drop 56 sample_cast =
        take (ts + re + cs + 1) sample_cast @ annotation_block sample_type sample_title @
        drop (ts + re + cs + 1) sample_cast"
proof -
  have "add_annotation_to_tool sample_cast sample_name sample_type sample_title =
     (take 56 sample_cast @ annotation_block sample_type sample_title @ drop 56 sample_cast,
      True)"
    using sample_cast_eval by (simp add: add_annotation_splice)
  from splice_after_comma[OF this] show ?thesis by blast
qed

section \<open>Searching structured buffers\<close>

lemma re_search_from_shift:
  "re_search_from pat s i = map_option (shift_span i) (re_search_from pat s 0)"
proof (induction s arbitrary: i)
  case Nil
  then show ?case by (simp add: shift_span_def split: option.splits)
next
  case (Cons x xs)
  show ?case
  proof (cases "re_match pat (x # xs)")
    case None
    have "re_search_from pat (x # xs) i = re_search_from pat xs (Suc i)" using None by simp
    also have "\<dots> = map_option (shift_span (Suc i)) (re_search_from pat xs 0)" by (rule Cons.IH)
    also have "\<dots> = map_option (shift_span i) (map_option (shift_span (Suc 0)) (re_search_from pat xs 0))"
      by (cases "re_search_from pat xs 0") (simp_all add: shift_span_def)
    also have "map_option (shift_span (Suc 0)) (re_search_from pat xs 0) = re_search_from pat xs (Suc 0)"
      by (rule Cons.IH[symmetric])
    also have "re_search_from pat xs (Suc 0) = re_search_from pat (x # xs) 0" using None by simp
    finally show ?thesis .
  next
    case (Some n)
    then show ?thesis by (simp add: shift_span_def)
  qed
qed

lemma re_search_from_skip:
  assumes "\<forall>k<length pre. re_match pat (drop k (pre @ post)) = None"
  shows "re_search_from pat (pre @ post) i = re_search_from pat post (i + length pre)"
  using assms
proof (induction pre arbitrary: i)
  case Nil
  then show ?case by simp
next
  case (Cons x pre)
  have 0: "re_match pat (x # pre @ post) = None" using Cons.prems[rule_format, of 0] by simp
  have "\<forall>k<length pre. re_match pat (drop k (pre @ post)) = None"
  proof (intro allI impI)
    fix k assume "k < length pre"
    then show "re_match pat (drop k (pre @ post)) = None"
      using Cons.prems[rule_format, of "Suc k"] by simp
  qed
  from Cons.IH[OF this, of "Suc i"] 0 show ?case
    by (cases "post") simp_all
qed

lemma re_search_skip:
  assumes "\<forall>k<length pre. re_match pat (drop k (pre @ post)) = None"
  shows "re_search pat (pre @ post) = map_option (shift_span (length pre)) (re_search pat post)"
  unfolding re_search_def re_search_from_skip[OF assms]
  using re_search_from_shift[of pat post "length pre"] by simp

lemma lits_match_prefix:
  assumes "re_match (map Chr lit @ r) s \<noteq> None"
  shows "prefix lit s"
  using assms unfolding re_match_lits by (simp split: if_splits)

lemma no_prefix_in_pre:
  assumes "\<not> str_in lit (pre @ take (length lit - 1) post)" "k < length pre"
  shows "\<not> prefix lit (drop k (pre @ post))"
proof
  assume p: "prefix lit (drop k (pre @ post))"
  then have t: "take (length lit) (drop k (pre @ post)) = lit" by (simp add: prefix_take_iff)
  have le: "k + length lit \<le> length (pre @ post)"
    using prefix_length_le[OF p] assms(2) by simp
  let ?s = "pre @ take (length lit - 1) post"
  have "take (length lit) (drop k ?s) = take (length lit) (drop k (pre @ post))"
    using assms(2) by (simp add: min_def) 
  with t have "take (length lit) (drop k ?s) = lit" by simp
  moreover have "k + length lit \<le> length ?s" using le assms(2) by (auto simp: min_def)
  ultimately have "str_in lit ?s" unfolding str_in_iff by blast
  with assms(1) show False by contradiction
qed

lemma str_in_appendI2: "str_in sub ys \<Longrightarrow> str_in sub (xs @ ys)"
  by (induction xs) simp_all

lemma str_in_appendI1:
  assumes "str_in sub xs" shows "str_in sub (xs @ ys)"
proof -
  from assms obtain k where "k + length sub \<le> length xs" "take (length sub) (drop k xs) = sub"
    unfolding str_in_iff by blast
  then have "k + length sub \<le> length (xs @ ys) \<and> take (length sub) (drop k (xs @ ys)) = sub"
    by simp
  then show ?thesis unfolding str_in_iff by blast
qed

lemma str_in_pad:
  assumes "z \<notin> set sub" "sub \<noteq> []" "0 < k"
  shows "str_in sub (xs @ replicate k z @ ys) \<longleftrightarrow> str_in sub xs \<or> str_in sub ys"
proof
  assume "str_in sub xs \<or> str_in sub ys"
  then show "str_in sub (xs @ replicate k z @ ys)"
    by (auto intro: str_in_appendI1 str_in_appendI2)
next
  let ?s = "xs @ replicate k z @ ys"
  assume "str_in sub ?s"
  then obtain j where j: "j + length sub \<le> length ?s" "take (length sub) (drop j ?s) = sub"
    unfolding str_in_iff by blast
  have nz: "?s ! i \<noteq> z" if "j \<le> i" "i < j + length sub" for i
  proof -
    have "sub ! (i - j) = take (length sub) (drop j ?s) ! (i - j)" by (simp only: j(2))
    also have "\<dots> = ?s ! (j + (i - j))" using that j(1) by (intro nth_take_drop) linarith+
    finally have "?s ! i = sub ! (i - j)" using that by simp
    moreover have "sub ! (i - j) \<in> set sub" using that by (intro nth_mem) linarith
    ultimately show ?thesis using assms(1) by metis
  qed
  have len: "0 < length sub" using assms(2) by simp
  consider "j + length sub \<le> length xs" | "length xs + k \<le> j"
    | "length xs < j + length sub" "j < length xs + k" by linarith
  then show "str_in sub xs \<or> str_in sub ys"
  proof cases
    case 1
    then have "take (length sub) (drop j xs) = sub" using j(2) by simp
    with 1 show ?thesis unfolding str_in_iff by blast
  next
    case 2
    have "drop j ?s = drop (j - (length xs + k)) ys" using 2 by simp
    with j(2) have "take (length sub) (drop (j - (length xs + k)) ys) = sub" by simp
    moreover have "(j - (length xs + k)) + length sub \<le> length ys" using 2 j(1) by simp
    ultimately show ?thesis unfolding str_in_iff by blast
  next
    case 3
    define i where "i = max j (length xs)"
    have i: "j \<le> i" "i < j + length sub" "length xs \<le> i" "i < length xs + k"
      using 3 len assms(3) by (auto simp: i_def)
    have "i - length xs < k" using i(3,4) by linarith
    then have "?s ! i = z" using i(3) by (simp add: nth_append)
    with nz[OF i(1,2)] show ?thesis by contradiction
  qed
qed

lemma tool_pattern_lits:
  "tool_pattern n = map Chr (ustr ''name:'') @ (Star is_space # map Chr (DQUOTE @ n @ DQUOTE))"
  by (simp add: tool_pattern_def)

lemma tool_match_name:
  assumes "re_match (tool_pattern n) s \<noteq> None"
  shows "prefix (ustr ''name:'') s"
  using assms unfolding tool_pattern_lits by (rule lits_match_prefix)

lemma tool_search_hit:
  assumes "\<forall>x\<in>set ws. is_space x"
  shows "re_search (tool_pattern n) (decl_text ws n @ r) = Some (0, length (decl_text ws n))"
proof -
  have "re_match (tool_pattern n) (drop 0 (decl_text ws n @ r)) = Some (length (decl_text ws n))"
    unfolding tool_match_iff using assms by auto
  from re_search_SomeI[OF _ this] show ?thesis by simp
qed

lemma tool_search_none:
  assumes "\<not> str_in (ustr ''name:'') s"
  shows "re_search (tool_pattern n) s = None"
  unfolding re_search_None
proof (intro allI impI, rule ccontr)
  fix k assume k: "k \<le> length s" and "re_match (tool_pattern n) (drop k s) \<noteq> None"
  then have "prefix (ustr ''name:'') (drop k s)" by (intro tool_match_name)
  then have "str_in (ustr ''name:'') s" using k by (rule str_in_prefix_drop)
  with assms show False by contradiction
qed

lemma prefix_takeWhile_eq:
  assumes "prefix (xs @ c # u) (ys @ d # v)"
    and "\<forall>x\<in>set xs. P x" "\<not> P c" "\<forall>y\<in>set ys. P y" "\<not> P d"
  shows "xs = ys"
proof -
  from assms(1) obtain t where t: "ys @ d # v = (xs @ c # u) @ t" by (auto simp: prefix_def)
  have "takeWhile P (ys @ d # v) = ys" using assms(4,5) by (simp add: takeWhile_append2)
  moreover have "takeWhile P ((xs @ c # u) @ t) = xs"
  proof -
    have "(xs @ c # u) @ t = xs @ c # (u @ t)" by simp
    then show ?thesis using assms(2,3) by (simp only: takeWhile_append2 takeWhile.simps if_False append_Nil2)
  qed
  ultimately show ?thesis using t by simp
qed

lemma tool_match_other:
  assumes "\<forall>x\<in>set ws. is_space x" "34 \<notin> set n" "34 \<notin> set m" "n \<noteq> m"
  shows "re_match (tool_pattern n) (decl_text ws m @ r) = None"
proof (rule ccontr)
  assume "re_match (tool_pattern n) (decl_text ws m @ r) \<noteq> None"
  then obtain ws' where ws': "\<forall>x\<in>set ws'. is_space x"
      "prefix (decl_text ws' n) (decl_text ws m @ r)"
    by (auto simp: tool_match_iff)
  then have 1: "prefix (ws' @ 34 # (n @ DQUOTE)) (ws @ 34 # (m @ DQUOTE @ r))"
    by (simp add: decl_text_def DQUOTE_def)
  have w: "ws' = ws"
    using 1 ws'(1) not_space_simps(1) assms(1) not_space_simps(1) by (rule prefix_takeWhile_eq)
  with 1 have "prefix (n @ 34 # []) (m @ 34 # r)" by (simp add: DQUOTE_def)
  then have "n = m"
    by (rule prefix_takeWhile_eq[where P = "\<lambda>x. x \<noteq> 34"]) (use assms(2,3) in auto)
  with assms(4) show False by contradiction
qed

lemma tool_search_skip_decl:
  assumes "\<forall>x\<in>set ws. is_space x" "34 \<notin> set n" "34 \<notin> set m" "n \<noteq> m"
    and "\<not> str_in (ustr ''name:'') (tl (decl_text ws m @ mid) @ take 4 post)"
  shows "re_search (tool_pattern n) ((decl_text ws m @ mid) @ post) =
     map_option (shift_span (length (decl_text ws m @ mid))) (re_search (tool_pattern n) post)"
proof (rule re_search_skip, intro allI impI)
  let ?pre = "decl_text ws m @ mid"
  fix k assume k: "k < length ?pre"
  have ne: "?pre \<noteq> []" by (simp add: decl_text_def ustr_def)
  show "re_match (tool_pattern n) (drop k (?pre @ post)) = None"
  proof (cases k)
    case 0
    then show ?thesis using tool_match_other[OF assms(1-4), of "mid @ post"] by simp
  next
    case (Suc j)
    have j: "j < length (tl ?pre)" using k Suc by simp
    have l: "length (ustr ''name:'') - 1 = 4" by (simp add: ustr_def)
    have "\<not> str_in (ustr ''name:'') (tl ?pre @ take (length (ustr ''name:'') - 1) post)"
      unfolding l by (rule assms(5))
    then have "\<not> prefix (ustr ''name:'') (drop j (tl ?pre @ post))"
      using j by (rule no_prefix_in_pre)
    moreover have "drop k (?pre @ post) = drop j (tl ?pre @ post)"
      using Suc ne by (cases ?pre) simp_all
    ultimately show ?thesis using tool_match_name by metis
  qed
qed

lemma required_matchI:
  assumes "\<forall>x\<in>set ws. is_space x" "93 \<notin> set body"
  shows "re_match required_pattern (ustr ''required:'' @ ws @ 91 # body @ 93 # rest) =
     Some (length ws + length body + 11)"
proof -
  let ?R = "ustr ''required:''"
  have pat: "required_pattern = map Chr ?R @ (Star is_space # Chr 91 # [Star (\<lambda>c. c \<noteq> 93), Chr 93])"
    by (simp add: required_pattern_def)
  have inner: "re_match [Star (\<lambda>c. c \<noteq> 93), Chr 93] (body @ 93 # rest) = Some (length body + 1 + 0)"
  proof -
    have "re_match [Star (\<lambda>c. c \<noteq> 93), Chr 93] (body @ 93 # rest) = Some (length body + 1 + 0) \<longleftrightarrow>
        (\<exists>ws r k. body @ 93 # rest = ws @ 93 # r \<and> (\<forall>x\<in>set ws. x \<noteq> 93) \<and>
           re_match [] r = Some k \<and> length body + 1 + 0 = length ws + 1 + k)"
      by (rule star_chr_iff) simp
    moreover have "\<exists>ws r k. body @ 93 # rest = ws @ 93 # r \<and> (\<forall>x\<in>set ws. x \<noteq> 93) \<and>
           re_match [] r = Some k \<and> length body + 1 + 0 = length ws + 1 + k"
      using assms(2) by (intro exI[of _ body] exI[of _ rest] exI[of _ 0]) auto
    ultimately show ?thesis by blast
  qed
  let ?in = "[Star (\<lambda>c. c \<noteq> 93), Chr 93]"
  have outer: "re_match (Star is_space # Chr 91 # ?in)
      (ws @ 91 # (body @ 93 # rest)) = Some (length ws + 1 + (length body + 1 + 0))"
  proof -
    have "re_match (Star is_space # Chr 91 # ?in) (ws @ 91 # (body @ 93 # rest)) =
          Some (length ws + 1 + (length body + 1 + 0)) \<longleftrightarrow>
        (\<exists>w r k. ws @ 91 # (body @ 93 # rest) = w @ 91 # r \<and> (\<forall>x\<in>set w. is_space x) \<and>
           re_match ?in r = Some k \<and> length ws + 1 + (length body + 1 + 0) = length w + 1 + k)"
      by (rule star_chr_iff) (rule not_space_simps(2))
    moreover have "\<exists>w r k. ws @ 91 # (body @ 93 # rest) = w @ 91 # r \<and> (\<forall>x\<in>set w. is_space x) \<and>
           re_match ?in r = Some k \<and> length ws + 1 + (length body + 1 + 0) = length w + 1 + k"
      using assms(1) inner
      by (intro exI[of _ ws] exI[of _ "body @ 93 # rest"] exI[of _ "length body + 1 + 0"]) simp
    ultimately show ?thesis by blast
  qed
  show ?thesis
    unfolding pat re_match_lits using outer by (simp add: ustr_def)
qed

lemma required_match_name:
  assumes "re_match required_pattern s \<noteq> None"
  shows "prefix (ustr ''required:'') s"
proof -
  have pat: "required_pattern = map Chr (ustr ''required:'') @ [Star is_space, Chr 91, Star (\<lambda>c. c \<noteq> 93), Chr 93]"
    by (simp add: required_pattern_def)
  show ?thesis using assms unfolding pat by (rule lits_match_prefix)
qed

lemma required_search_at:
  assumes "\<forall>x\<in>set ws. is_space x" "93 \<notin> set body"
    and "\<not> str_in (ustr ''required:'') (pre @ ustr ''required'')"
  shows "re_search required_pattern (pre @ ustr ''required:'' @ ws @ 91 # body @ 93 # rest) =
     Some (length pre, length pre + (length ws + length body + 11))"
proof -
  let ?post = "ustr ''required:'' @ ws @ 91 # body @ 93 # rest"
  have hit: "re_search required_pattern ?post = Some (0, 0 + (length ws + length body + 11))"
    by (rule re_search_SomeI) (simp_all add: required_matchI[OF assms(1,2)])
  have "\<forall>k<length pre. re_match required_pattern (drop k (pre @ ?post)) = None"
  proof (intro allI impI)
    fix k assume k: "k < length pre"
    have l: "take (length (ustr ''required:'') - 1) ?post = ustr ''required''"
      by (simp add: ustr_def)
    have "\<not> str_in (ustr ''required:'')
        (pre @ take (length (ustr ''required:'') - 1) ?post)"
      unfolding l by (rule assms(3))
    then have "\<not> prefix (ustr ''required:'') (drop k (pre @ ?post))"
      using k by (rule no_prefix_in_pre)
    then show "re_match required_pattern (drop k (pre @ ?post)) = None"
      using required_match_name by metis
  qed
  from re_search_skip[OF this] hit show ?thesis by (simp add: shift_span_def)
qed

section \<open>Two passes over one buffer\<close>

lemma cex_lengths [simp]: "length cex_dy = 33" "length cex_dx = 32"
  by (simp_all add: cex_dy_def cex_dx_def decl_text_length ustr_def)

lemma cex_block_length [simp]: "length cex_block = 107"
  by (simp add: cex_block_def annotation_block_def ustr_def NL_def DQUOTE_def)

lemma cex_once_parts:
  "cex_once =
     cex_dy @ ustr '' required: ['' @ cex_dx @ replicate 953 122 @
     (ustr ''],'' @ cex_block @ ustr ''}annotations: required: [],}'')"
  by (simp add: cex_once_def cex_buffer_def ustr_def)

lemma replicate_4: "replicate 4 x = [x, x, x, x]"
  by (simp add: numeral_eq_Suc)

lemma cex_search:
  assumes "34 \<notin> set n" "\<not> str_in (ustr ''name:'') z"
  shows "re_search (tool_pattern n) (cex_dy @ ustr '' required: ['' @ cex_dx @ replicate 953 122 @ z) =
     (if n = ustr ''autotask_search_companies'' then Some (0, 33)
      else if n = ustr ''autotask_test_connection'' then Some (45, 77)
      else None)"
proof -
  let ?nY = "ustr ''autotask_search_companies''" and ?nX = "ustr ''autotask_test_connection''"
  let ?mid = "ustr '' required: [''"
  let ?rest = "replicate 953 122 @ z"
  have sp: "\<forall>x\<in>set [32]. is_space x" by (simp add: is_space_def)
  have qY: "34 \<notin> set ?nY" and qX: "34 \<notin> set ?nX" by (simp_all add: ustr_def)
  have after: "re_search (tool_pattern n) ?rest = None"
  proof (rule tool_search_none)
    have "str_in (ustr ''name:'') ([] @ replicate 953 122 @ z) \<longleftrightarrow>
        str_in (ustr ''name:'') [] \<or> str_in (ustr ''name:'') z"
      by (rule str_in_pad) (simp_all add: ustr_def)
    then show "\<not> str_in (ustr ''name:'') ?rest" using assms(2) by (simp add: ustr_def)
  qed
  have second: "re_search (tool_pattern n) (cex_dx @ ?rest) =
      (if n = ?nX then Some (0, 32) else None)"
  proof (cases "n = ?nX")
    case True
    then show ?thesis using tool_search_hit[OF sp, of ?nX ?rest] by (simp add: cex_dx_def[symmetric])
  next
    case False
    have "\<not> str_in (ustr ''name:'') (tl (decl_text [32] ?nX @ []) @ take 4 ?rest)"
      by (simp add: decl_text_def ustr_def DQUOTE_def replicate_4)
    from tool_search_skip_decl[OF sp assms(1) qX False this] after False
    show ?thesis by (simp add: cex_dx_def)
  qed
  show ?thesis
  proof (cases "n = ?nY")
    case True
    then show ?thesis
      using tool_search_hit[OF sp, of ?nY "?mid @ cex_dx @ ?rest"] by (simp add: cex_dy_def[symmetric])
  next
    case False
    have "\<not> str_in (ustr ''name:'') (tl (decl_text [32] ?nY @ ?mid) @ take 4 (cex_dx @ ?rest))"
      by (simp add: decl_text_def ustr_def DQUOTE_def cex_dx_def)
    moreover have "length (ustr '' required: ['') = 12" by (simp add: ustr_def)
    ultimately show ?thesis
      using tool_search_skip_decl[OF sp assms(1) qY False] second False
      by (simp add: cex_dy_def[symmetric] shift_span_def)
  qed
qed

lemma cex_names_differ:
  "ustr ''autotask_test_connection'' \<noteq> ustr ''autotask_search_companies''"
  "34 \<notin> set (ustr ''autotask_test_connection'')"
  "34 \<notin> set (ustr ''autotask_search_companies'')"
  by (simp_all add: ustr_def)

lemma cex_buffer_length [simp]: "length cex_buffer = 1060"
  by (simp add: cex_buffer_def ustr_def)

lemma cex_once_length [simp]: "length cex_once = 1167"
  by (simp add: cex_once_def)

lemma cex_first_skipped: "splice_point cex_buffer (ustr ''autotask_test_connection'') = None"
proof -
  have "\<not> str_in (ustr ''name:'') (ustr ''],}annotations: required: [],}'')"
    by (simp add: ustr_def)
  from cex_search[OF cex_names_differ(2) this]
  have s: "re_search (tool_pattern (ustr ''autotask_test_connection'')) cex_buffer = Some (45, 77)"
    using cex_names_differ(1) by (simp add: cex_buffer_def)
  have w: "slice cex_buffer 45 (45 + 1000) = cex_dx @ replicate 953 122 @ ustr ''],}annotations:''"
    by (simp add: slice_def cex_buffer_def ustr_def)
  have "str_in marker (ustr ''],}annotations:'')" by (simp add: marker_def ustr_def)
  then have "str_in marker (cex_dx @ replicate 953 122 @ ustr ''],}annotations:'')"
    by (intro str_in_appendI2)
  then have "already_annotated cex_buffer 45" unfolding already_annotated_def w .
  with s show ?thesis by (simp add: splice_point_def)
qed

lemma cex_second_spliced: "splice_point cex_buffer (ustr ''autotask_search_companies'') = Some 1032"
proof -
  have "\<not> str_in (ustr ''name:'') (ustr ''],}annotations: required: [],}'')"
    by (simp add: ustr_def)
  from cex_search[OF cex_names_differ(3) this]
  have s: "re_search (tool_pattern (ustr ''autotask_search_companies'')) cex_buffer = Some (0, 33)"
    by (simp add: cex_buffer_def)
  have w: "slice cex_buffer 0 (0 + 1000) =
      (cex_dy @ ustr '' required: ['' @ cex_dx) @ replicate 923 122 @ []"
    by (simp add: slice_def cex_buffer_def ustr_def)
  have "str_in marker ((cex_dy @ ustr '' required: ['' @ cex_dx) @ replicate 923 122 @ []) \<longleftrightarrow>
      str_in marker (cex_dy @ ustr '' required: ['' @ cex_dx) \<or> str_in marker []"
    by (rule str_in_pad) (simp_all add: marker_def ustr_def)
  moreover have "\<not> str_in marker (cex_dy @ ustr '' required: ['' @ cex_dx)"
    by (simp add: marker_def cex_dy_def cex_dx_def decl_text_def ustr_def DQUOTE_def)
  moreover have "\<not> str_in marker []" by (simp add: marker_def ustr_def)
  ultimately have a: "\<not> already_annotated cex_buffer 0" unfolding already_annotated_def w by blast
  have parts: "slice cex_buffer 0 (0 + 2000) =
      (cex_dy @ [32]) @ ustr ''required:'' @ [32] @ 91 # (cex_dx @ replicate 953 122) @ 93 #
      ustr '',}annotations: required: [],}''"
    by (simp add: slice_def cex_buffer_def ustr_def)
  have r: "re_search required_pattern (slice cex_buffer 0 (0 + 2000)) = Some (34, 1031)"
  proof -
    have 1: "\<forall>x\<in>set [32]. is_space x" by (simp add: is_space_def)
    have 2: "93 \<notin> set (cex_dx @ replicate 953 122)"
      by (simp add: cex_dx_def decl_text_def ustr_def DQUOTE_def)
    have 3: "\<not> str_in (ustr ''required:'') ((cex_dy @ [32]) @ ustr ''required'')"
      by (simp add: cex_dy_def decl_text_def ustr_def DQUOTE_def)
    show ?thesis unfolding parts required_search_at[OF 1 2 3] by simp
  qed
  have n: "slice cex_buffer (0 + 1031) (0 + 1031 + 50) = ustr '',}annotations: required: [],}''"
    by (simp add: slice_def cex_buffer_def ustr_def)
  have c: "re_search comma_pattern (slice cex_buffer (0 + 1031) (0 + 1031 + 50)) = Some (0, 2)"
    unfolding n by (simp add: re_search_def comma_pattern_def ustr_def is_space_def)
  show ?thesis unfolding splice_point_def s using a r c by simp
qed

lemma cex_once_tail_no_name:
  "\<not> str_in (ustr ''name:'') (ustr ''],'' @ cex_block @ ustr ''}annotations: required: [],}'')"
  by (simp add: cex_block_def annotation_block_def ustr_def NL_def DQUOTE_def)

lemma cex_once_search:
  assumes "34 \<notin> set n"
  shows "re_search (tool_pattern n) cex_once =
     (if n = ustr ''autotask_search_companies'' then Some (0, 33)
      else if n = ustr ''autotask_test_connection'' then Some (45, 77)
      else None)"
  unfolding cex_once_parts by (rule cex_search[OF assms cex_once_tail_no_name])

lemma cex_rest_absent:
  assumes "e \<in> set (drop 2 TOOL_ANNOTATIONS)"
  shows "splice_point cex_once (fst e) = None"
proof -
  have "\<forall>e\<in>set (drop 2 TOOL_ANNOTATIONS).
      fst e \<noteq> ustr ''autotask_search_companies'' \<and> fst e \<noteq> ustr ''autotask_test_connection'' \<and>
      34 \<notin> set (fst e)"
    by (simp add: TOOL_ANNOTATIONS_def ustr_def)
  with assms have "fst e \<noteq> ustr ''autotask_search_companies''"
      "fst e \<noteq> ustr ''autotask_test_connection''" "34 \<notin> set (fst e)" by auto
  then have "re_search (tool_pattern (fst e)) cex_once = None"
    by (simp add: cex_once_search)
  then show ?thesis by (simp add: splice_point_def)
qed

lemma cex_once_respliced: "splice_point cex_once (ustr ''autotask_test_connection'') = Some 1166"
proof -
  let ?z1 = "ustr ''],'' @ cex_block @ ustr ''}annotations: ''"
  have s: "re_search (tool_pattern (ustr ''autotask_test_connection'')) cex_once = Some (45, 77)"
    using cex_names_differ(1) by (simp add: cex_once_search[OF cex_names_differ(2)])
  have b13: "take 13 cex_block = ustr '','' @ NL @ ustr ''        ann''"
    by (simp add: cex_block_def annotation_block_def ustr_def NL_def DQUOTE_def)
  have w: "slice cex_once 45 (45 + 1000) =
      cex_dx @ replicate 953 122 @ (ustr ''],'' @ ustr '','' @ NL @ ustr ''        ann'')"
    unfolding cex_once_parts by (simp add: slice_def b13 ustr_def NL_def)
  have "str_in marker (cex_dx @ replicate 953 122 @ (ustr ''],'' @ ustr '','' @ NL @ ustr ''        ann'')) \<longleftrightarrow>
      str_in marker cex_dx \<or> str_in marker (ustr ''],'' @ ustr '','' @ NL @ ustr ''        ann'')"
    by (rule str_in_pad) (simp_all add: marker_def ustr_def)
  moreover have "\<not> str_in marker cex_dx"
    by (simp add: marker_def cex_dx_def decl_text_def ustr_def DQUOTE_def)
  moreover have "\<not> str_in marker (ustr ''],'' @ ustr '','' @ NL @ ustr ''        ann'')"
    by (simp add: marker_def ustr_def NL_def)
  ultimately have a: "\<not> already_annotated cex_once 45" unfolding already_annotated_def w by blast
  have parts: "slice cex_once 45 (45 + 2000) =
      (cex_dx @ replicate 953 122 @ ?z1) @ ustr ''required:'' @ [32] @ 91 # [] @ 93 # ustr '',}''"
    unfolding cex_once_parts by (simp add: slice_def ustr_def)
  have r: "re_search required_pattern (slice cex_once 45 (45 + 2000)) = Some (1108, 1120)"
  proof -
    have 1: "\<forall>x\<in>set [32]. is_space x" by (simp add: is_space_def)
    have 2: "93 \<notin> set []" by simp
    have "str_in (ustr ''required:'') (cex_dx @ replicate 953 122 @ (?z1 @ ustr ''required'')) \<longleftrightarrow>
        str_in (ustr ''required:'') cex_dx \<or> str_in (ustr ''required:'') (?z1 @ ustr ''required'')"
      by (rule str_in_pad) (simp_all add: ustr_def)
    moreover have "\<not> str_in (ustr ''required:'') cex_dx"
      by (simp add: cex_dx_def decl_text_def ustr_def DQUOTE_def)
    moreover have "\<not> str_in (ustr ''required:'') (?z1 @ ustr ''required'')"
      by (simp add: cex_block_def annotation_block_def ustr_def NL_def DQUOTE_def)
    ultimately have 3: "\<not> str_in (ustr ''required:'')
        ((cex_dx @ replicate 953 122 @ ?z1) @ ustr ''required'')" by simp
    have "length ?z1 = 123" by (simp add: ustr_def)
    then show ?thesis unfolding parts required_search_at[OF 1 2 3] by simp
  qed
  have n: "slice cex_once (45 + 1120) (45 + 1120 + 50) = ustr '',}''"
    unfolding cex_once_parts by (simp add: slice_def ustr_def)
  have c: "re_search comma_pattern (slice cex_once (45 + 1120) (45 + 1120 + 50)) = Some (0, 2)"
    unfolding n by (simp add: re_search_def comma_pattern_def ustr_def is_space_def)
  show ?thesis unfolding splice_point_def s using a r c by simp
qed

lemma pass_loop_all_skipped:
  assumes "\<forall>e\<in>set tb. splice_point (content st) (fst e) = None"
  shows "pass_loop tb st =
     st\<lparr>skipped_count := skipped_count st + length tb,
        world := (world st)\<lparr>events := events (world st) @
                   map (\<lambda>e. Print (skipped_line (fst e))) tb\<rparr>\<rparr>"
  using assms
proof (induction tb arbitrary: st)
  case Nil
  then show ?case by (simp add: pass_loop_Nil)
next
  case (Cons e tb)
  obtain n a t where e: "e = (n, a, t)" by (cases e) auto
  let ?s1 = "loop_body (n, a, t) st"
  have "splice_point (content st) n = None" using Cons.prems unfolding e by simp
  then have 1: "?s1 = st\<lparr>skipped_count := skipped_count st + 1,
                   world := py_print (skipped_line n) (world st)\<rparr>"
    by (simp add: loop_body_splice)
  have "content ?s1 = content st" by (simp add: 1)
  then have "\<forall>x\<in>set tb. splice_point (content ?s1) (fst x) = None"
    using Cons.prems by simp
  from Cons.IH[OF this] have "pass_loop tb ?s1 =
     ?s1\<lparr>skipped_count := skipped_count ?s1 + length tb,
        world := (world ?s1)\<lparr>events := events (world ?s1) @
                   map (\<lambda>e. Print (skipped_line (fst e))) tb\<rparr>\<rparr>" .
  also have "\<dots> = st\<lparr>skipped_count := skipped_count st + length ((n, a, t) # tb),
        world := (world st)\<lparr>events := events (world st) @
                   map (\<lambda>e. Print (skipped_line (fst e))) ((n, a, t) # tb)\<rparr>\<rparr>"
    unfolding 1 by (simp add: py_print_def emit_def)
  finally show ?case unfolding e pass_loop_Cons .
qed

lemma loop_body_grows:
  "length (content st) \<le> length (content (loop_body e st)) \<and>
   modified_count st \<le> modified_count (loop_body e st)"
  by (cases e) (auto simp: loop_body_splice min_def split: option.splits)

lemma pass_loop_grows:
  "length (content st) \<le> length (content (pass_loop tb st)) \<and>
   modified_count st \<le> modified_count (pass_loop tb st)"
proof (induction tb arbitrary: st)
  case Nil
  then show ?case by (simp add: pass_loop_Nil)
next
  case (Cons e tb)
  show ?case unfolding pass_loop_Cons
    using loop_body_grows[of st e] Cons.IH[of "loop_body e st"] by linarith
qed

lemma table_split:
  "TOOL_ANNOTATIONS =
     (ustr ''autotask_test_connection'', ustr ''TEST_ANNOTATIONS'', ustr ''Test Connection'') #
     (ustr ''autotask_search_companies'', ustr ''READ_ONLY_ANNOTATIONS'', ustr ''Search Companies'') #
     drop 2 TOOL_ANNOTATIONS"
  by (simp add: TOOL_ANNOTATIONS_def)

lemma cex_first_pass:
  assumes "content st = cex_buffer"
  shows "content (pass_loop TOOL_ANNOTATIONS st) = cex_once \<and>
         modified_count (pass_loop TOOL_ANNOTATIONS st) = modified_count st + 1"
proof -
  let ?eX = "(ustr ''autotask_test_connection'', ustr ''TEST_ANNOTATIONS'', ustr ''Test Connection'')"
  let ?eY = "(ustr ''autotask_search_companies'', ustr ''READ_ONLY_ANNOTATIONS'', ustr ''Search Companies'')"
  let ?s1 = "loop_body ?eX st"
  let ?s2 = "loop_body ?eY ?s1"
  have 1: "content ?s1 = cex_buffer" "modified_count ?s1 = modified_count st"
    using assms by (simp_all add: loop_body_splice cex_first_skipped)
  have 2: "content ?s2 = cex_once" "modified_count ?s2 = modified_count st + 1"
    using 1 by (simp_all add: loop_body_splice cex_second_spliced cex_once_def cex_block_def)
  have "\<forall>e\<in>set (drop 2 TOOL_ANNOTATIONS). splice_point (content ?s2) (fst e) = None"
    using cex_rest_absent 2(1) by simp
  from pass_loop_all_skipped[OF this] 2
  have "content (pass_loop (drop 2 TOOL_ANNOTATIONS) ?s2) = cex_once \<and>
        modified_count (pass_loop (drop 2 TOOL_ANNOTATIONS) ?s2) = modified_count st + 1"
    by simp
  then show ?thesis by (subst (1 2) table_split) (simp only: pass_loop_Cons)
qed

lemma cex_second_pass:
  assumes "content st = cex_once"
  shows "length cex_once < length (content (pass_loop TOOL_ANNOTATIONS st)) \<and>
         modified_count st < modified_count (pass_loop TOOL_ANNOTATIONS st)"
proof -
  let ?eX = "(ustr ''autotask_test_connection'', ustr ''TEST_ANNOTATIONS'', ustr ''Test Connection'')"
  let ?s1 = "loop_body ?eX st"
  have "0 < length (annotation_block (ustr ''TEST_ANNOTATIONS'') (ustr ''Test Connection''))"
    using annotation_block_shape(1) by blast
  then have 1: "length cex_once < length (content ?s1)" "modified_count st < modified_count ?s1"
    using assms by (simp_all add: loop_body_splice cex_once_respliced)
  have "TOOL_ANNOTATIONS = ?eX # tl TOOL_ANNOTATIONS" by (simp add: TOOL_ANNOTATIONS_def)
  then have "pass_loop TOOL_ANNOTATIONS st = pass_loop (tl TOOL_ANNOTATIONS) ?s1"
    by (metis pass_loop_Cons)
  with pass_loop_grows[of ?s1 "tl TOOL_ANNOTATIONS"] 1 show ?thesis by simp
qed

section \<open>Claims about repeated and consecutive processing\<close>

lemma all_annotated_skipped:
  assumes "\<forall>(n, a, t)\<in>set TOOL_ANNOTATIONS.
      \<forall>ts te. re_search (tool_pattern n) c = Some (ts, te) \<longrightarrow> already_annotated c ts"
  shows "\<forall>e\<in>set TOOL_ANNOTATIONS. splice_point c (fst e) = None"
proof
  fix e assume e: "e \<in> set TOOL_ANNOTATIONS"
  obtain n a t where "e = (n, a, t)" by (cases e) auto
  with e assms have "\<forall>ts te. re_search (tool_pattern n) c = Some (ts, te) \<longrightarrow> already_annotated c ts"
    by auto
  then have "splice_point c n = None"
    by (auto simp: splice_point_def split: option.splits)
  with \<open>e = (n, a, t)\<close> show "splice_point c (fst e) = None" by simp
qed

text \<open>
  Claim C2, as amended. Take a buffer in which every entry of the table whose name pattern
  is found has the marker within the 1000 characters that start at its declaration offset.
  The pass skips all 36 entries: the modified count is 0, the buffer is unchanged, the run
  prints a skipped line per entry and the no-changes line, writes the backup only, and the
  target file keeps its text. A second run on the output of a first run is such a run only
  when that output meets the same condition, which a first run does not ensure.
\<close>

theorem annotated_pass_unchanged:
  assumes "files w (handler_path d) = Some text"
    and "\<forall>(n, a, t)\<in>set TOOL_ANNOTATIONS.
      \<forall>ts te. re_search (tool_pattern n) text = Some (ts, te) \<longrightarrow> already_annotated text ts"
  shows "modified_count (pass_loop TOOL_ANNOTATIONS (loop_entry d text w)) = 0 \<and>
     skipped_count (pass_loop TOOL_ANNOTATIONS (loop_entry d text w)) = length TOOL_ANNOTATIONS \<and>
     content (pass_loop TOOL_ANNOTATIONS (loop_entry d text w)) = text \<and>
     main d w =
       (0, w\<lparr>files := (files w)(backup_path d \<mapsto> text),
              events := events w @ prelude d text @
                map (\<lambda>e. Print (skipped_line (fst e))) TOOL_ANNOTATIONS @
                [Print (NL @ ustr ''No changes needed - all tools already have annotations'')]\<rparr>) \<and>
     files (snd (main d w)) (handler_path d) = Some text"
proof -
  let ?st = "pass_loop TOOL_ANNOTATIONS (loop_entry d text w)"
  have "\<forall>e\<in>set TOOL_ANNOTATIONS. splice_point (content (loop_entry d text w)) (fst e) = None"
    using all_annotated_skipped[OF assms(2)] by (simp add: loop_entry_def)
  note sk = pass_loop_all_skipped[OF this]
  have 1: "modified_count ?st = 0" "skipped_count ?st = length TOOL_ANNOTATIONS" "content ?st = text"
    unfolding sk by (simp_all add: loop_entry_def)
  have 2: "main d w =
       (0, w\<lparr>files := (files w)(backup_path d \<mapsto> text),
              events := events w @ prelude d text @
                map (\<lambda>e. Print (skipped_line (fst e))) TOOL_ANNOTATIONS @
                [Print (NL @ ustr ''No changes needed - all tools already have annotations'')]\<rparr>)"
    unfolding main_present[OF assms(1)] Let_def sk
    by (simp add: loop_entry_def epilogue_def)
  have "files (snd (main d w)) (handler_path d) = Some text"
    unfolding 2 using assms(1) backup_neq_handler[of d] by simp
  with 1 2 show ?thesis by blast
qed

lemma sample_annotated_found:
  assumes "re_search (tool_pattern n) sample_annotated = Some (ts, te)"
  shows "ts = 0"
proof (rule ccontr)
  assume "ts \<noteq> 0"
  then obtain j where j: "ts = Suc j" by (cases ts) auto
  from re_search_Some[OF assms] have le: "ts \<le> length sample_annotated"
    and m: "re_match (tool_pattern n) (drop ts sample_annotated) \<noteq> None" by auto
  have d: "drop ts sample_annotated = drop j (tl sample_annotated)"
    unfolding j by (rule drop_Suc)
  have "prefix (ustr ''name:'') (drop j (tl sample_annotated))"
    using tool_match_name[OF m] unfolding d .
  moreover have "j \<le> length (tl sample_annotated)" using le j by simp
  ultimately have "str_in (ustr ''name:'') (tl sample_annotated)" by (rule str_in_prefix_drop)
  moreover have "\<not> str_in (ustr ''name:'') (tl sample_annotated)"
    by (simp add: sample_annotated_def sample_name_def ustr_def DQUOTE_def)
  ultimately show False by contradiction
qed

theorem annotated_pass_unchanged_witness:
  "modified_count (pass_loop TOOL_ANNOTATIONS
     (loop_entry sample_dir sample_annotated annotated_world)) = 0 \<and>
   content (pass_loop TOOL_ANNOTATIONS
     (loop_entry sample_dir sample_annotated annotated_world)) = sample_annotated \<and>
   fst (main sample_dir annotated_world) = 0 \<and>
   files (snd (main sample_dir annotated_world)) (handler_path sample_dir) = Some sample_annotated"
proof -
  have 1: "files annotated_world (handler_path sample_dir) = Some sample_annotated"
    by (simp add: annotated_world_def)
  have a: "already_annotated sample_annotated 0"
    by (simp add: sample_annotated_def sample_name_def eval_defs)
  have 2: "\<forall>(n, a, t)\<in>set TOOL_ANNOTATIONS.
      \<forall>ts te. re_search (tool_pattern n) sample_annotated = Some (ts, te) \<longrightarrow>
        already_annotated sample_annotated ts"
    using sample_annotated_found a by auto
  have "fst (main sample_dir annotated_world) = 0"
    by (simp add: main_present[OF 1] Let_def)
  with annotated_pass_unchanged[OF 1 2] show ?thesis by blast
qed

text \<open>
  The claim as stated fails in its last part. On \<open>cex_buffer\<close> the first run skips
  \<^verbatim>\<open>autotask_test_connection\<close>, whose window of 1000 characters ends with the marker, and
  splices the block of \<^verbatim>\<open>autotask_search_companies\<close> just before that marker; the file then
  holds \<open>cex_once\<close>. The inserted block pushes every marker out of the window of
  \<^verbatim>\<open>autotask_test_connection\<close>, so the second run modifies that entry and writes a different
  file.
\<close>

theorem second_run_modifies_counterexample:
  "files (snd (main sample_dir cex_world)) (handler_path sample_dir) = Some cex_once \<and>
   0 < modified_count (pass_loop TOOL_ANNOTATIONS
         (loop_entry sample_dir cex_once (snd (main sample_dir cex_world)))) \<and>
   files (snd (main sample_dir (snd (main sample_dir cex_world)))) (handler_path sample_dir) \<noteq>
     Some cex_once"
proof -
  let ?d = sample_dir
  let ?w1 = "snd (main ?d cex_world)"
  have f0: "files cex_world (handler_path ?d) = Some cex_buffer" by (simp add: cex_world_def)
  let ?st1 = "pass_loop TOOL_ANNOTATIONS (loop_entry ?d cex_buffer cex_world)"
  have p1: "content ?st1 = cex_once" "modified_count ?st1 = 1"
    using cex_first_pass[of "loop_entry ?d cex_buffer cex_world"] by (simp_all add: loop_entry_def)
  have f1: "files ?w1 (handler_path ?d) = Some cex_once"
    unfolding main_present[OF f0] Let_def using p1 by simp
  let ?st2 = "pass_loop TOOL_ANNOTATIONS (loop_entry ?d cex_once ?w1)"
  have p2: "length cex_once < length (content ?st2)" "0 < modified_count ?st2"
    using cex_second_pass[of "loop_entry ?d cex_once ?w1"] by (simp_all add: loop_entry_def)
  have "files (snd (main ?d ?w1)) (handler_path ?d) = Some (content ?st2)"
    unfolding main_present[OF f1] Let_def using p2(2) by simp
  moreover have "content ?st2 \<noteq> cex_once" using p2(1) by auto
  ultimately show ?thesis using f1 p2(2) by simp
qed





end
